theory Spec2Isabelle
  imports Complex_Main "HOL-Library.Sublist" "HOL-Library.Code_Target_Nat"
begin

section \<open>Witness\_complex.h: the data\<close>

text \<open>
  The header builds a witness complex from, for every witness, the ranking of the
  landmarks by squared distance. Squared distances, the relaxation \<open>alpha2\<close> and
  filtration values are C++ doubles; they are read here as exact reals, and the one
  non-finite double the code uses, \<open>std::numeric_limits<double>::infinity()\<close>
  (the initial \<open>norelax_dist2\<close>), is a constructor of its own.
  Landmark ids are natural numbers. The type \<open>Landmark_id\<close> of the source also types
  the dimension counter \<open>k\<close> and \<open>limit_dimension\<close>, which the code tests for being
  negative; these two and \<open>int dim\<close> are unbounded integers here. The counter grows by
  one per pass, and a pass is only made while some witness has a ranking long enough for
  the simplices of the pass before, so it stays far below the bounds of the machine types.
\<close>

type_synonym Landmark_id = nat
type_synonym Filtration_value = real
type_synonym Id_distance_pair = "Landmark_id \<times> real"
type_synonym typeVectorVertex = "Landmark_id list"

datatype norelax = Finite real | Infinity

text \<open>The comparisons \<open><=\<close> and \<open><\<close> the code makes against \<open>norelax_dist2\<close>.\<close>

fun le_norelax :: "real \<Rightarrow> norelax \<Rightarrow> bool" where
  "le_norelax d Infinity = True"
| "le_norelax d (Finite r) = (d \<le> r)"

fun lt_norelax :: "real \<Rightarrow> norelax \<Rightarrow> bool" where
  "lt_norelax d Infinity = True"
| "lt_norelax d (Finite r) = (d < r)"

text \<open>
  \<open>double filtration_value = 0; if (l_it->second > norelax_dist2)
  filtration_value = l_it->second - norelax_dist2;\<close> No double is greater than
  infinity.
\<close>

fun excess :: "real \<Rightarrow> norelax \<Rightarrow> Filtration_value" where
  "excess d Infinity = 0"
| "excess d (Finite r) = (if d > r then d - r else 0)"

subsection \<open>Active witness\<close>

text \<open>
  Modelled from the spec: \<open>Active_witness\<close> (gudhi/Active\_witness/Active\_witness.h) and
  the incremental nearest-neighbour query of \<open>Kd_tree_search\<close> are not among the sources.
  An active witness presents the finite ranking of (landmark id, squared distance) pairs
  of its witness. An iterator is the part of the ranking it has not passed yet, so
  \<open>begin()\<close> is the whole ranking, \<open>end()\<close> is \<open>[]\<close> and \<open>++it\<close> is \<open>tl it\<close>.
  The loops of \<open>add_all_faces_of_dimension\<close> read \<open>l_it->second\<close> before they test
  \<open>l_it != end\<close>; what an iterator at the end yields is the field \<open>past_end\<close>, on
  which nothing is assumed.
\<close>

type_synonym iterator = "Id_distance_pair list"

record ActiveWitness =
  ranking :: "Id_distance_pair list"
  past_end :: Id_distance_pair

definition deref :: "Id_distance_pair \<Rightarrow> iterator \<Rightarrow> Id_distance_pair" where
  "deref pe it = (case it of [] \<Rightarrow> pe | p # _ \<Rightarrow> p)"

subsection \<open>Target complex\<close>

text \<open>
  Modelled from the spec: the \<open>SimplicialComplexForWitness\<close> template argument is not among
  the sources. It stores simplices with filtration values; a vertex list is treated as a
  set for comparison; \<open>find\<close> yields the handle of a stored simplex or the null handle;
  \<open>num_vertices\<close> counts the stored 0-simplices. \<open>insert_simplex\<close> stores a simplex
  that is not stored with the given value, and never stores a simplex twice. Of the
  insertion of a stored simplex the spec says that it is a no-op and safe to repeat, and
  of the witnesses that their order does not matter; it does not say which value a simplex
  keeps that is inserted with two values. Two complexes are modelled: one leaves the stored
  value as it is, the other keeps the smaller of the stored and the given value, which is
  the same whenever the given value is not smaller. The field \<open>keeps_lower\<close> says
  which of the two a complex is.
  A handle is identified with the filtration value it gives access to, the null handle
  with \<open>None\<close>. The complex also records the calls it receives, in order.
\<close>

datatype call = Find typeVectorVertex | Insert typeVectorVertex Filtration_value | Set_dimension int

record simplicial_complex =
  entries :: "(Landmark_id set \<times> Filtration_value) list"
  dimension :: int
  calls :: "call list"
  keeps_lower :: bool

definition lookup :: "simplicial_complex \<Rightarrow> Landmark_id set \<Rightarrow> Filtration_value option" where
  "lookup sc = map_of (entries sc)"

definition num_vertices :: "simplicial_complex \<Rightarrow> nat" where
  "num_vertices sc = length (filter (\<lambda>e. card (fst e) = 1) (entries sc))"

definition find_simplex :: "simplicial_complex \<Rightarrow> typeVectorVertex \<Rightarrow> Filtration_value option \<times> simplicial_complex" where
  "find_simplex sc vs = (lookup sc (set vs), sc\<lparr>calls := calls sc @ [Find vs]\<rparr>)"

definition insert_simplex :: "simplicial_complex \<Rightarrow> typeVectorVertex \<Rightarrow> Filtration_value \<Rightarrow> simplicial_complex" where
  "insert_simplex sc vs f =
     sc\<lparr>entries :=
          (case lookup sc (set vs) of
             None \<Rightarrow> entries sc @ [(set vs, f)]
           | Some g \<Rightarrow>
               if keeps_lower sc
               then map (\<lambda>e. if fst e = set vs then (fst e, min (snd e) f) else e) (entries sc)
               else entries sc),
        calls := calls sc @ [Insert vs f]\<rparr>"

definition set_dimension :: "simplicial_complex \<Rightarrow> int \<Rightarrow> simplicial_complex" where
  "set_dimension sc d = sc\<lparr>dimension := d, calls := calls sc @ [Set_dimension d]\<rparr>"

section \<open>The functions of the header\<close>

subsection \<open>all\_faces\_in\<close>

text \<open>
  The inner loop copies \<open>simplex\<close> without the position \<open>not_it\<close>; the outer loop looks
  every such facet up, returns false at the first one missing and otherwise raises
  \<open>*filtration_value\<close> to the facet's filtration value when that is larger.
\<close>

definition facet :: "typeVectorVertex \<Rightarrow> nat \<Rightarrow> typeVectorVertex" where
  "facet simplex not_it = take not_it simplex @ drop (Suc not_it) simplex"

function all_faces_in_from ::
  "typeVectorVertex \<Rightarrow> nat \<Rightarrow> Filtration_value \<Rightarrow> simplicial_complex \<Rightarrow> bool \<times> Filtration_value \<times> simplicial_complex" where
  "all_faces_in_from simplex not_it fv sc =
     (if not_it < length simplex then
        (case find_simplex sc (facet simplex not_it) of
           (None, sc1) \<Rightarrow> (False, fv, sc1)
         | (Some f, sc1) \<Rightarrow> all_faces_in_from simplex (Suc not_it) (if f > fv then f else fv) sc1)
      else (True, fv, sc))"
  by pat_completeness auto
termination
  by (relation "measure (\<lambda>(simplex, not_it, fv, sc). length simplex - not_it)") auto

definition all_faces_in ::
  "typeVectorVertex \<Rightarrow> Filtration_value \<Rightarrow> simplicial_complex \<Rightarrow> bool \<times> Filtration_value \<times> simplicial_complex" where
  "all_faces_in simplex fv sc = all_faces_in_from simplex 0 fv sc"

subsection \<open>add\_all\_faces\_of\_dimension\<close>

text \<open>
  The guard of both \<open>for\<close> loops, operands in the order of the source:
  \<open>l_it->second - alpha2 <= norelax_dist2 && l_it != end\<close>.
\<close>

definition in_window :: "Id_distance_pair \<Rightarrow> real \<Rightarrow> norelax \<Rightarrow> iterator \<Rightarrow> bool" where
  "in_window pe alpha2 norelax_dist2 l_it =
     (le_norelax (snd (deref pe l_it) - alpha2) norelax_dist2 \<and> l_it \<noteq> [])"

text \<open>
  The loop of the branch \<open>dim == 0\<close>. Its state is \<open>norelax_dist2\<close>, \<open>will_be_active\<close>,
  \<open>l_it\<close>, and the two objects passed by reference, \<open>simplex\<close> and \<open>sc\<close>.
\<close>

function dim_zero_loop ::
  "Id_distance_pair \<Rightarrow> real \<Rightarrow> norelax \<Rightarrow> bool \<Rightarrow> iterator \<Rightarrow> typeVectorVertex \<Rightarrow> simplicial_complex
     \<Rightarrow> bool \<times> typeVectorVertex \<times> simplicial_complex" where
  "dim_zero_loop pe alpha2 norelax_dist2 will_be_active l_it simplex sc =
     (if in_window pe alpha2 norelax_dist2 l_it then
        (let d = snd (deref pe l_it);
             simplex1 = simplex @ [fst (deref pe l_it)];
             (ok, filtration_value, sc1) = all_faces_in simplex1 (excess d norelax_dist2) sc;
             will_be_active1 = (if ok then True else will_be_active);
             sc2 = (if ok then insert_simplex sc1 simplex1 filtration_value else sc1);
             simplex2 = butlast simplex1;
             norelax1 = (if lt_norelax d norelax_dist2 then Finite d else norelax_dist2)
         in dim_zero_loop pe alpha2 norelax1 will_be_active1 (tl l_it) simplex2 sc2)
      else (will_be_active, simplex, sc))"
  by pat_completeness auto
termination
  by (relation "measure (\<lambda>(pe, alpha2, nr, wba, l_it, simplex, sc). length l_it)")
     (auto simp: in_window_def)

text \<open>
  The function itself and the loop of its branch \<open>dim > 0\<close>. In
  \<open>will_be_active = add_all_faces_of_dimension(...) || will_be_active\<close> the call is
  the left operand, so it is always made.
\<close>

function add_all_faces_of_dimension ::
  "Id_distance_pair \<Rightarrow> int \<Rightarrow> real \<Rightarrow> norelax \<Rightarrow> iterator \<Rightarrow> typeVectorVertex \<Rightarrow> simplicial_complex
     \<Rightarrow> bool \<times> typeVectorVertex \<times> simplicial_complex"
and dim_pos_loop ::
  "Id_distance_pair \<Rightarrow> int \<Rightarrow> real \<Rightarrow> norelax \<Rightarrow> bool \<Rightarrow> iterator \<Rightarrow> typeVectorVertex \<Rightarrow> simplicial_complex
     \<Rightarrow> bool \<times> typeVectorVertex \<times> simplicial_complex" where
  "add_all_faces_of_dimension pe dm alpha2 norelax_dist2 curr_l simplex sc =
     (if curr_l = [] then (False, simplex, sc)
      else if dm > 0 then dim_pos_loop pe dm alpha2 norelax_dist2 False curr_l simplex sc
      else if dm = 0 then dim_zero_loop pe alpha2 norelax_dist2 False curr_l simplex sc
      else (False, simplex, sc))"
| "dim_pos_loop pe dm alpha2 norelax_dist2 will_be_active l_it simplex sc =
     (if in_window pe alpha2 norelax_dist2 l_it then
        (let d = snd (deref pe l_it);
             simplex1 = simplex @ [fst (deref pe l_it)];
             (sh, sc1) = find_simplex sc simplex1;
             (will_be_active1, simplex2, sc2) =
               (if sh \<noteq> None then
                  (let (r, s, c) = add_all_faces_of_dimension pe (dm - 1) alpha2 norelax_dist2
                                     (tl l_it) simplex1 sc1
                   in (r \<or> will_be_active, s, c))
                else (will_be_active, simplex1, sc1));
             simplex3 = butlast simplex2;
             norelax1 = (if le_norelax d norelax_dist2 then Finite d else norelax_dist2);
             (r2, simplex4, sc3) = add_all_faces_of_dimension pe dm alpha2 norelax1
                                     (tl l_it) simplex3 sc2
         in dim_pos_loop pe dm alpha2 norelax1 (r2 \<or> will_be_active1) (tl l_it) simplex4 sc3)
      else (will_be_active, simplex, sc))"
  by pat_completeness auto
termination
  by (relation "measure (\<lambda>x. case x of
          Inl (pe, dm, alpha2, nr, curr_l, simplex, sc) \<Rightarrow> 2 * length curr_l + 1
        | Inr (pe, dm, alpha2, nr, wba, l_it, simplex, sc) \<Rightarrow> 2 * length l_it)")
     (auto simp: in_window_def neq_Nil_conv)

subsection \<open>create\_complex\<close>

text \<open>
  The object holds the landmarks, the witnesses and the search tree. The code uses
  \<open>landmarks_.size()\<close>, here \<open>nbL\<close>, and for every witness of \<open>witnesses_\<close>, in
  order, the active witness made of \<open>landmark_tree_.query_incremental_nearest_neighbors(w)\<close>,
  here the list \<open>nearest\<close> (modelled from the spec, as said above: the query is not among
  the sources).
\<close>

record Witness_complex =
  nbL :: nat
  nearest :: "ActiveWitness list"

text \<open>
  The two ways in which \<open>create_complex\<close> does not return: its first loop does not end,
  or it takes the front of an empty list.
\<close>

datatype error = Seeding_never_ends | Front_of_empty_list

text \<open>
  \<open>for (unsigned i = 0; i != nbL; ++i) { vv = {i}; complex.insert_simplex(vv, 0.0); }\<close>
  The counter is a 32-bit unsigned and \<open>nbL\<close> a \<open>std::size_t\<close>: the counter meets
  \<open>nbL\<close> when \<open>nbL < 2^32\<close>, and otherwise wraps around for ever.
\<close>

definition seed_vertices :: "nat \<Rightarrow> simplicial_complex \<Rightarrow> simplicial_complex" where
  "seed_vertices n sc = fold (\<lambda>i c. insert_simplex c [i] 0) [0..<n] sc"

text \<open>
  The inner \<open>while\<close> of the main loop: one call per active witness, in list order, with
  an empty \<open>simplex\<close> and an infinite \<open>norelax_dist2\<close>; the witness is erased from the
  list when the call returns false.
\<close>

fun dimension_pass ::
  "int \<Rightarrow> real \<Rightarrow> ActiveWitness list \<Rightarrow> simplicial_complex \<Rightarrow> ActiveWitness list \<times> simplicial_complex" where
  "dimension_pass k alpha2 [] sc = ([], sc)"
| "dimension_pass k alpha2 (aw # aws) sc =
     (let (ok, simplex, sc1) =
            add_all_faces_of_dimension (past_end aw) k alpha2 Infinity (ranking aw) [] sc;
          (aws1, sc2) = dimension_pass k alpha2 aws sc1
      in (if ok then aw # aws1 else aws1, sc2))"

text \<open>The outer \<open>while\<close>; it returns its state at exit.\<close>

function main_loop ::
  "int \<Rightarrow> int \<Rightarrow> real \<Rightarrow> ActiveWitness list \<Rightarrow> simplicial_complex \<Rightarrow> int \<times> ActiveWitness list \<times> simplicial_complex" where
  "main_loop k limit_dimension alpha2 active_witnesses sc =
     (if active_witnesses \<noteq> [] \<and> k \<le> limit_dimension then
        (let (aws1, sc1) = dimension_pass k alpha2 active_witnesses sc
         in main_loop (k + 1) limit_dimension alpha2 aws1 sc1)
      else (k, active_witnesses, sc))"
  by pat_completeness auto
termination
  by (relation "measure (\<lambda>(k, lim, alpha2, aws, sc). nat (lim + 1 - k))") auto

text \<open>
  \<open>std::list::front()\<close>, which has no defined result on an empty list.
\<close>

definition front :: "'a list \<Rightarrow> 'a option" where
  "front xs = (case xs of [] \<Rightarrow> None | x # _ \<Rightarrow> Some x)"

text \<open>
  The three checks in the order of the source, each returning false with the complex
  untouched (the messages to \<open>std::cerr\<close> are left out); the seeding loop; the list of
  active witnesses and the copy of its front; the main loop; \<open>set_dimension(k-1)\<close>.
\<close>

definition create_complex ::
  "Witness_complex \<Rightarrow> simplicial_complex \<Rightarrow> real \<Rightarrow> int \<Rightarrow> error + bool \<times> simplicial_complex" where
  "create_complex wc sc max_alpha_square limit_dimension =
     (if num_vertices sc > 0 then Inr (False, sc)
      else if max_alpha_square < 0 then Inr (False, sc)
      else if limit_dimension < 0 then Inr (False, sc)
      else if \<not> nbL wc < 2 ^ 32 then Inl Seeding_never_ends
      else
        (let sc1 = seed_vertices (nbL wc) sc;
             active_witnesses = nearest wc
         in case front active_witnesses of
              None \<Rightarrow> Inl Front_of_empty_list
            | Some aw_copy \<Rightarrow>
                (let (k, aws, sc2) = main_loop 1 limit_dimension max_alpha_square active_witnesses sc1
                 in Inr (True, set_dimension sc2 (k - 1)))))"

section \<open>Vocabulary of the properties\<close>

subsection \<open>The calls a run makes\<close>

text \<open>
  What \<open>find\<close> leaves behind: the complex with the call recorded. The check
  \<open>facets_verified\<close> says of an \<open>insert_simplex\<close> call, in the complex as it is at
  the moment of the call, that the simplex has fewer than two vertices or that each list
  obtained by removing one position is stored with a filtration value not above the
  inserted one. \<open>replay\<close> runs a list of calls from a complex and fails at the first
  \<open>insert_simplex\<close> that does not pass the check.
\<close>

definition log_find :: "simplicial_complex \<Rightarrow> typeVectorVertex \<Rightarrow> simplicial_complex" where
  "log_find sc vs = sc\<lparr>calls := calls sc @ [Find vs]\<rparr>"

definition facets_verified :: "simplicial_complex \<Rightarrow> typeVectorVertex \<Rightarrow> Filtration_value \<Rightarrow> bool" where
  "facets_verified sc vs f =
     (2 \<le> length vs \<longrightarrow>
        (\<forall>i \<in> set [0..<length vs].
           case lookup sc (set (facet vs i)) of None \<Rightarrow> False | Some g \<Rightarrow> g \<le> f))"

fun replay :: "simplicial_complex \<Rightarrow> call list \<Rightarrow> simplicial_complex option" where
  "replay sc [] = Some sc"
| "replay sc (Find vs # cs) = replay (log_find sc vs) cs"
| "replay sc (Insert vs f # cs) =
     (if facets_verified sc vs f then replay (insert_simplex sc vs f) cs else None)"
| "replay sc (Set_dimension d # cs) = replay (set_dimension sc d) cs"

fun is_insert :: "call \<Rightarrow> bool" where
  "is_insert (Insert vs f) = True"
| "is_insert (Find vs) = False"
| "is_insert (Set_dimension d) = False"

fun vertex_list :: "call \<Rightarrow> typeVectorVertex" where
  "vertex_list (Find vs) = vs"
| "vertex_list (Insert vs f) = vs"
| "vertex_list (Set_dimension d) = []"

text \<open>
  The shape of a call made below \<open>add_all_faces_of_dimension dim ... curr_l simplex\<close>:
  its vertex list is \<open>simplex\<close> followed by landmark ids in the order of the ranking
  from \<open>curr_l\<close> on, with some left out, and an inserted list has \<open>dim + 1\<close> vertices more
  than \<open>simplex\<close>.
\<close>

fun call_ok :: "typeVectorVertex \<Rightarrow> Landmark_id list \<Rightarrow> int \<Rightarrow> call \<Rightarrow> bool" where
  "call_ok s ids dm (Find vs) = subseq vs (s @ ids)"
| "call_ok s ids dm (Insert vs f) =
     (subseq vs (s @ ids) \<and> int (length vs) = int (length s) + dm + 1)"
| "call_ok s ids dm (Set_dimension d) = False"

text \<open>
  The effect of a call or of a loop on its three outputs: \<open>simplex\<close> is given back as it
  was, the complex is reached by calls of the right shape that all pass the check, and the
  flag is the incoming flag or the fact that one of the calls was an \<open>insert_simplex\<close>.
\<close>

definition effect ::
  "typeVectorVertex \<Rightarrow> Landmark_id list \<Rightarrow> int \<Rightarrow> bool \<Rightarrow> simplicial_complex
     \<Rightarrow> bool \<times> typeVectorVertex \<times> simplicial_complex \<Rightarrow> bool" where
  "effect s ids dm wba sc r \<longleftrightarrow>
     fst (snd r) = s \<and>
     (\<exists>cs. replay sc cs = Some (snd (snd r))
         \<and> (fst r \<longleftrightarrow> wba \<or> (\<exists>c \<in> set cs. is_insert c))
         \<and> (\<forall>c \<in> set cs. call_ok s ids dm c))"

subsection \<open>Simplicial complexes\<close>

text \<open>
  Downward closure and monotonicity of the filtration, first of a map from vertex sets to
  filtration values, then of a complex, over its stored entries. The empty vertex set is
  not a face.
\<close>

definition closed_map :: "(Landmark_id set \<rightharpoonup> Filtration_value) \<Rightarrow> bool" where
  "closed_map m \<longleftrightarrow> (\<forall>S F. m S \<noteq> None \<and> F \<subseteq> S \<and> F \<noteq> {} \<longrightarrow> m F \<noteq> None)"

definition monotone_map :: "(Landmark_id set \<rightharpoonup> Filtration_value) \<Rightarrow> bool" where
  "monotone_map m \<longleftrightarrow>
     (\<forall>S F f g. m S = Some f \<and> m F = Some g \<and> F \<subseteq> S \<and> F \<noteq> {} \<longrightarrow> g \<le> f)"

definition downward_closed :: "simplicial_complex \<Rightarrow> bool" where
  "downward_closed sc \<longleftrightarrow>
     (\<forall>e \<in> set (entries sc). \<forall>F \<in> Pow (fst e). F \<noteq> {} \<longrightarrow> lookup sc F \<noteq> None)"

definition filtration_monotone :: "simplicial_complex \<Rightarrow> bool" where
  "filtration_monotone sc \<longleftrightarrow>
     (\<forall>e \<in> set (entries sc). \<forall>F \<in> Pow (fst e). F \<noteq> {} \<longrightarrow>
        (case (lookup sc F, lookup sc (fst e)) of (Some g, Some f) \<Rightarrow> g \<le> f | _ \<Rightarrow> True))"

text \<open>The vertex lists the builder can hand to the complex, see \<open>call_ok\<close>.\<close>

definition built_from :: "Witness_complex \<Rightarrow> typeVectorVertex \<Rightarrow> bool" where
  "built_from wc vs \<longleftrightarrow>
     (\<exists>i \<in> set [0..<nbL wc]. vs = [i])
     \<or> (\<exists>aw \<in> set (nearest wc). subseq vs (map fst (ranking aw)))"

text \<open>
  The dimension of a simplex is its number of vertices less one; the highest dimension in
  a non-empty complex. One complex is contained in another when each of its simplices is
  stored in the other, whatever the filtration values.
\<close>

definition highest_dimension :: "simplicial_complex \<Rightarrow> int" where
  "highest_dimension sc = Max ((\<lambda>e. int (card (fst e)) - 1) ` set (entries sc))"

definition contained_in :: "simplicial_complex \<Rightarrow> simplicial_complex \<Rightarrow> bool" where
  "contained_in sc1 sc2 \<longleftrightarrow> list_all (\<lambda>e. lookup sc2 (fst e) \<noteq> None) (entries sc1)"

text \<open>
  Two results of \<open>add_all_faces_of_dimension\<close>, or of one of its loops, compared: the
  second is true when the first is, and its complex contains that of the first.
\<close>

definition sim ::
  "bool \<times> typeVectorVertex \<times> simplicial_complex
     \<Rightarrow> bool \<times> typeVectorVertex \<times> simplicial_complex \<Rightarrow> bool" where
  "sim r1 r2 \<longleftrightarrow> (fst r1 \<longrightarrow> fst r2) \<and> contained_in (snd (snd r1)) (snd (snd r2))"

text \<open>
  A closer comparison of two complexes: each simplex of the first is stored in the second
  with a filtration value that is not larger. And of two results, for a second complex
  that keeps the smaller value when a stored simplex is inserted again.
\<close>

definition not_above :: "simplicial_complex \<Rightarrow> simplicial_complex \<Rightarrow> bool" where
  "not_above sc1 sc2 \<longleftrightarrow>
     list_all (\<lambda>e. case (lookup sc1 (fst e), lookup sc2 (fst e)) of
                      (Some f, Some g) \<Rightarrow> g \<le> f | _ \<Rightarrow> False) (entries sc1)"

definition sim_lower ::
  "bool \<times> typeVectorVertex \<times> simplicial_complex
     \<Rightarrow> bool \<times> typeVectorVertex \<times> simplicial_complex \<Rightarrow> bool" where
  "sim_lower r1 r2 \<longleftrightarrow>
     (fst r1 \<longrightarrow> fst r2) \<and> keeps_lower (snd (snd r2)) \<and> not_above (snd (snd r1)) (snd (snd r2))"

subsection \<open>The window of a loop\<close>

text \<open>
  The candidates a loop gets to from its iterator: the longest run of the ranking from
  there on in which each candidate passes the guard, \<open>norelax_dist2\<close> being lowered to
  the distance of each in turn when that is not larger. \<open>new_calls\<close> are the calls
  recorded in the second complex after those of the first. \<open>extends_by\<close> says of a call
  that its vertex list goes on after \<open>simplex\<close> with a candidate of the window, and
  \<open>inserts_extend\<close> says so of every \<open>insert_simplex\<close> call of a list.
\<close>

fun window :: "real \<Rightarrow> norelax \<Rightarrow> iterator \<Rightarrow> iterator" where
  "window alpha2 nr [] = []"
| "window alpha2 nr ((v, d) # it) =
     (if le_norelax (d - alpha2) nr
      then (v, d) # window alpha2 (if le_norelax d nr then Finite d else nr) it
      else [])"

definition new_calls :: "simplicial_complex \<Rightarrow> simplicial_complex \<Rightarrow> call list" where
  "new_calls sc sc' = drop (length (calls sc)) (calls sc')"

definition extends_by :: "typeVectorVertex \<Rightarrow> iterator \<Rightarrow> call \<Rightarrow> bool" where
  "extends_by s w c \<longleftrightarrow> (\<exists>p \<in> set w. take (Suc (length s)) (vertex_list c) = s @ [fst p])"

definition inserts_extend :: "typeVectorVertex \<Rightarrow> iterator \<Rightarrow> call list \<Rightarrow> bool" where
  "inserts_extend s w cs \<longleftrightarrow> (\<forall>c \<in> set cs. is_insert c \<longrightarrow> extends_by s w c)"

subsection \<open>Concrete inputs\<close>

text \<open>
  An empty complex. One landmark with one witness, and the complex the builder makes of
  them with relaxation 0 and limit 5.
\<close>

definition ex_empty :: simplicial_complex where
  "ex_empty = \<lparr>entries = [], dimension = 0, calls = [],
      keeps_lower = False\<rparr>"

definition ex_one :: Witness_complex where
  "ex_one = \<lparr>nbL = 1, nearest = [\<lparr>ranking = [(0, 1)], past_end = (0, 0)\<rparr>]\<rparr>"

definition ex_one_result :: simplicial_complex where
  "ex_one_result = \<lparr>entries = [({0}, 0)], dimension = 1,
      calls = [Insert [0] 0, Find [0], Set_dimension 1],
      keeps_lower = False\<rparr>"

text \<open>
  Three landmarks and one witness, at squared distances 2, 1 and 4 from landmarks 0, 1 and
  2, and the complex the builder makes of them with relaxation 2 and limit 5.
\<close>

definition ex_three :: Witness_complex where
  "ex_three = \<lparr>nbL = 3, nearest = [\<lparr>ranking = [(1, 1), (0, 2), (2, 4)], past_end = (0, 0)\<rparr>]\<rparr>"

definition ex_three_result :: simplicial_complex where
  "ex_three_result =
     \<lparr>entries = [({0}, 0), ({1}, 0), ({2}, 0), ({1, 0}, 0), ({1, 2}, 2)], dimension = 2,
      calls = [Insert [0] 0, Insert [1] 0, Insert [2] 0, Find [1], Find [0],
               Find [1], Insert [1, 0] 0, Find [2], Find [1], Insert [1, 2] 2,
               Find [0], Find [0], Find [1], Find [1, 0], Find [0, 2],
               Find [1, 2], Find [1, 2], Find [0], Find [0], Set_dimension 2],
      keeps_lower = False\<rparr>"

text \<open>
  Three landmarks and two witnesses, at squared distances 1, 2, 4 and 1, 5, 2 from
  landmarks 0, 1, 2 (points of the plane have such distances). An empty complex that keeps
  the smaller value when a stored simplex is inserted again, and the complexes the builder
  makes in it of these landmarks and witnesses with limit 1, with relaxation 0 and with
  relaxation 2: in the second, the edge of landmarks 0 and 2 is inserted by the first
  witness with value 2 and by the second with value 0.
\<close>

definition ex_two :: Witness_complex where
  "ex_two = \<lparr>nbL = 3, nearest = [\<lparr>ranking = [(0, 1), (1, 2), (2, 4)], past_end = (0, 0)\<rparr>,
                                  \<lparr>ranking = [(0, 1), (2, 2), (1, 5)], past_end = (0, 0)\<rparr>]\<rparr>"

definition ex_empty_lowering :: simplicial_complex where
  "ex_empty_lowering = \<lparr>entries = [], dimension = 0, calls = [], keeps_lower = True\<rparr>"

definition ex_two_strict :: simplicial_complex where
  "ex_two_strict =
     \<lparr>entries = [({0}, 0), ({1}, 0), ({2}, 0), ({0, 1}, 0), ({0, 2}, 0)], dimension = 1,
      calls = [Insert [0] 0, Insert [1] 0, Insert [2] 0, Find [0], Find [1],
               Find [0], Insert [0, 1] 0, Find [0], Find [2], Find [0],
               Insert [0, 2] 0, Set_dimension 1],
      keeps_lower = True\<rparr>"

definition ex_two_relaxed :: simplicial_complex where
  "ex_two_relaxed =
     \<lparr>entries = [({0}, 0), ({1}, 0), ({2}, 0), ({0, 1}, 0), ({0, 2}, 0)], dimension = 1,
      calls = [Insert [0] 0, Insert [1] 0, Insert [2] 0, Find [0], Find [1],
               Find [0], Insert [0, 1] 0, Find [2], Find [0], Insert [0, 2] 2,
               Find [1], Find [1], Find [0], Find [2], Find [0],
               Insert [0, 2] 0, Find [2], Find [2], Set_dimension 1],
      keeps_lower = True\<rparr>"

section \<open>Lemmas\<close>

declare dim_zero_loop.simps [simp del] add_all_faces_of_dimension.simps [simp del]
  dim_pos_loop.simps [simp del] all_faces_in_from.simps [simp del] main_loop.simps [simp del]

subsection \<open>The operations of the complex\<close>

lemma find_simplex_eq: "find_simplex sc vs = (lookup sc (set vs), log_find sc vs)"
  by (simp add: find_simplex_def log_find_def)

lemma lookup_log_find [simp]: "lookup (log_find sc vs) = lookup sc"
  by (simp add: log_find_def lookup_def)

lemma entries_log_find [simp]: "entries (log_find sc vs) = entries sc"
  by (simp add: log_find_def)

lemma dimension_log_find [simp]: "dimension (log_find sc vs) = dimension sc"
  by (simp add: log_find_def)

lemma calls_log_find [simp]: "calls (log_find sc vs) = calls sc @ [Find vs]"
  by (simp add: log_find_def)

lemma calls_insert_simplex [simp]: "calls (insert_simplex sc vs f) = calls sc @ [Insert vs f]"
  by (simp add: insert_simplex_def)

lemma dimension_insert_simplex [simp]: "dimension (insert_simplex sc vs f) = dimension sc"
  by (simp add: insert_simplex_def)

lemma keeps_lower_log_find [simp]: "keeps_lower (log_find sc vs) = keeps_lower sc"
  by (simp add: log_find_def)

lemma keeps_lower_insert_simplex [simp]: "keeps_lower (insert_simplex sc vs f) = keeps_lower sc"
  by (simp add: insert_simplex_def)

lemma keeps_lower_set_dimension [simp]: "keeps_lower (set_dimension sc d) = keeps_lower sc"
  by (simp add: set_dimension_def)

lemma map_of_lowered:
  "map_of (map (\<lambda>e. if fst e = k then (fst e, h (snd e)) else e) xs) k' =
     (if k' = k then map_option h (map_of xs k) else map_of xs k')"
  by (induction xs) auto

lemma lookup_insert_simplex:
  "lookup (insert_simplex sc vs f) =
     (case lookup sc (set vs) of
        None \<Rightarrow> (lookup sc)(set vs \<mapsto> f)
      | Some g \<Rightarrow> if keeps_lower sc then (lookup sc)(set vs \<mapsto> min g f) else lookup sc)"
proof (cases "lookup sc (set vs)")
  case None
  then show ?thesis
    by (auto simp: insert_simplex_def lookup_def map_add_def fun_eq_iff split: option.splits)
next
  case (Some g)
  show ?thesis
  proof (cases "keeps_lower sc")
    case True
    have "map_of (map (\<lambda>e. if fst e = set vs then (fst e, min (snd e) f) else e) (entries sc)) k
            = ((lookup sc)(set vs \<mapsto> min g f)) k" for k
      using Some
      by (simp only: map_of_lowered[where h = "\<lambda>x. min x f"]) (simp add: lookup_def)
    then show ?thesis using Some True by (simp add: insert_simplex_def lookup_def fun_eq_iff)
  next
    case False
    then show ?thesis using Some by (simp add: insert_simplex_def lookup_def)
  qed
qed

lemma lookup_insert_simplex_other:
  "S \<noteq> set vs \<Longrightarrow> lookup (insert_simplex sc vs f) S = lookup sc S"
  by (simp add: lookup_insert_simplex split: option.splits)

lemma lookup_insert_simplex_new:
  "lookup sc (set vs) = None \<Longrightarrow> lookup (insert_simplex sc vs f) = (lookup sc)(set vs \<mapsto> f)"
  by (simp add: lookup_insert_simplex)

lemma lookup_insert_simplex_same:
  "lookup (insert_simplex sc vs f) (set vs) =
     Some (case lookup sc (set vs) of None \<Rightarrow> f
           | Some g \<Rightarrow> if keeps_lower sc then min g f else g)"
  by (simp add: lookup_insert_simplex split: option.splits)

lemma lookup_insert_simplex_present:
  "lookup sc S \<noteq> None \<Longrightarrow> lookup (insert_simplex sc vs f) S \<noteq> None"
  by (cases "S = set vs") (simp_all add: lookup_insert_simplex_same lookup_insert_simplex_other)

lemma lookup_insert_simplex_lower:
  assumes "lookup sc S = Some g"
  shows "\<exists>g'. lookup (insert_simplex sc vs f) S = Some g' \<and> g' \<le> g"
  using assms
  by (cases "S = set vs") (simp_all add: lookup_insert_simplex_same lookup_insert_simplex_other)

lemma lookup_set_dimension [simp]: "lookup (set_dimension sc d) = lookup sc"
  by (simp add: set_dimension_def lookup_def)

lemma calls_set_dimension [simp]: "calls (set_dimension sc d) = calls sc @ [Set_dimension d]"
  by (simp add: set_dimension_def)

lemma dimension_set_dimension [simp]: "dimension (set_dimension sc d) = d"
  by (simp add: set_dimension_def)

subsection \<open>Replaying calls\<close>

text \<open>
  Calls replay one after the other; what holds of the map of the complex and is kept by
  every checked insertion holds after a replay.
\<close>

lemma replay_append:
  "replay sc (cs1 @ cs2) = (case replay sc cs1 of None \<Rightarrow> None | Some sc1 \<Rightarrow> replay sc1 cs2)"
proof (induction cs1 arbitrary: sc)
  case Nil
  show ?case by simp
next
  case (Cons c cs1)
  show ?case by (cases c) (simp_all add: Cons.IH)
qed

lemma replay_trans:
  "replay sc cs1 = Some sc1 \<Longrightarrow> replay sc1 cs2 = Some sc2 \<Longrightarrow> replay sc (cs1 @ cs2) = Some sc2"
  by (simp add: replay_append)

lemma replay_calls: "replay sc cs = Some sc' \<Longrightarrow> calls sc' = calls sc @ cs"
proof (induction cs arbitrary: sc)
  case Nil
  then show ?case by simp
next
  case (Cons c cs)
  then show ?case by (cases c) (auto split: if_splits)
qed

lemma replay_invariant:
  assumes "replay sc cs = Some sc'" and "I (lookup sc)"
    and "\<And>c vs f. I (lookup c) \<Longrightarrow> facets_verified c vs f \<Longrightarrow> Insert vs f \<in> set cs
           \<Longrightarrow> I (lookup (insert_simplex c vs f))"
  shows "I (lookup sc')"
  using assms
proof (induction cs arbitrary: sc)
  case Nil
  then show ?case by simp
next
  case (Cons c cs)
  show ?case
  proof (cases c)
    case (Find vs)
    with Cons.prems have "replay (log_find sc vs) cs = Some sc'" by simp
    moreover have "I (lookup (log_find sc vs))" using Cons.prems(2) by simp
    ultimately show ?thesis using Cons.IH Cons.prems(3) by (metis list.set_intros(2))
  next
    case (Insert vs f)
    with Cons.prems have v: "facets_verified sc vs f"
      and r: "replay (insert_simplex sc vs f) cs = Some sc'" by (auto split: if_splits)
    have "I (lookup (insert_simplex sc vs f))"
      using Cons.prems(3)[OF Cons.prems(2) v] Insert by simp
    then show ?thesis using Cons.IH[OF r] Cons.prems(3) by (metis list.set_intros(2))
  next
    case (Set_dimension d)
    with Cons.prems have "replay (set_dimension sc d) cs = Some sc'" by simp
    moreover have "I (lookup (set_dimension sc d))" using Cons.prems(2) by simp
    ultimately show ?thesis using Cons.IH Cons.prems(3) by (metis list.set_intros(2))
  qed
qed

subsection \<open>all\_faces\_in\<close>

text \<open>
  The check changes the complex by recorded lookups only, succeeds exactly when every facet
  is stored, and then returns the largest of the incoming value and the facets' values.
\<close>

lemma all_faces_in_from_step:
  "all_faces_in_from simplex i fv sc =
     (if i < length simplex then
        (case lookup sc (set (facet simplex i)) of
           None \<Rightarrow> (False, fv, log_find sc (facet simplex i))
         | Some f \<Rightarrow> all_faces_in_from simplex (Suc i) (max fv f) (log_find sc (facet simplex i)))
      else (True, fv, sc))"
  by (subst all_faces_in_from.simps) (auto simp: find_simplex_eq max_def split: option.splits)

lemma all_faces_in_from_lookup:
  "lookup (snd (snd (all_faces_in_from simplex i fv sc))) = lookup sc"
proof (induction "length simplex - i" arbitrary: i fv sc)
  case 0
  then show ?case by (subst all_faces_in_from_step) simp
next
  case (Suc n)
  then have "n = length simplex - Suc i" by simp
  from Suc.hyps(1)[OF this] show ?case
    by (subst all_faces_in_from_step) (simp split: option.splits)
qed

lemma all_faces_in_from_replay:
  "\<exists>cs. replay sc cs = Some (snd (snd (all_faces_in_from simplex i fv sc)))
        \<and> (\<forall>c \<in> set cs. \<exists>j<length simplex. c = Find (facet simplex j))"
proof (induction "length simplex - i" arbitrary: i fv sc)
  case 0
  then have "all_faces_in_from simplex i fv sc = (True, fv, sc)"
    by (subst all_faces_in_from_step) simp
  then have "replay sc [] = Some (snd (snd (all_faces_in_from simplex i fv sc)))" by simp
  then show ?case by (metis empty_iff list.set(1))
next
  case (Suc n)
  then have n: "n = length simplex - Suc i" and i: "i < length simplex" by simp_all
  let ?sc1 = "log_find sc (facet simplex i)"
  show ?case
  proof (cases "lookup sc (set (facet simplex i))")
    case None
    then have "all_faces_in_from simplex i fv sc = (False, fv, ?sc1)"
      using i by (subst all_faces_in_from_step) simp
    then have "replay sc [Find (facet simplex i)]
                 = Some (snd (snd (all_faces_in_from simplex i fv sc)))" by simp
    then show ?thesis using i
      by (intro exI[of _ "[Find (facet simplex i)]"]) auto
  next
    case (Some f)
    then have e: "all_faces_in_from simplex i fv sc
                    = all_faces_in_from simplex (Suc i) (max fv f) ?sc1"
      using i by (subst all_faces_in_from_step) simp
    from Suc.hyps(1)[OF n, of ?sc1 "max fv f"] obtain cs where
      cs: "replay ?sc1 cs = Some (snd (snd (all_faces_in_from simplex (Suc i) (max fv f) ?sc1)))"
        "\<forall>c \<in> set cs. \<exists>j<length simplex. c = Find (facet simplex j)" by blast
    have "replay sc (Find (facet simplex i) # cs)
            = Some (snd (snd (all_faces_in_from simplex i fv sc)))"
      using cs(1) e by simp
    then show ?thesis using cs(2) i
      by (intro exI[of _ "Find (facet simplex i) # cs"]) auto
  qed
qed

lemma all_faces_in_from_ok:
  "fst (all_faces_in_from simplex i fv sc)
     \<longleftrightarrow> (\<forall>j. i \<le> j \<and> j < length simplex \<longrightarrow> lookup sc (set (facet simplex j)) \<noteq> None)"
proof (induction "length simplex - i" arbitrary: i fv sc)
  case 0
  then show ?case by (subst all_faces_in_from_step) auto
next
  case (Suc n)
  then have n: "n = length simplex - Suc i" and i: "i < length simplex" by simp_all
  show ?case
  proof (cases "lookup sc (set (facet simplex i))")
    case None
    then show ?thesis using i by (subst all_faces_in_from_step) auto
  next
    case (Some f)
    have "(\<forall>j. Suc i \<le> j \<and> j < length simplex \<longrightarrow> lookup sc (set (facet simplex j)) \<noteq> None)
          \<longleftrightarrow> (\<forall>j. i \<le> j \<and> j < length simplex \<longrightarrow> lookup sc (set (facet simplex j)) \<noteq> None)"
      using Some by (metis Suc_leI le_neq_implies_less option.distinct(1) Suc_leD)
    then show ?thesis using i Some Suc.hyps(1)[OF n]
      by (subst all_faces_in_from_step) simp
  qed
qed

lemma all_faces_in_from_value:
  "fst (all_faces_in_from simplex i fv sc) \<Longrightarrow>
   fst (snd (all_faces_in_from simplex i fv sc))
     = Max (insert fv ((\<lambda>j. the (lookup sc (set (facet simplex j)))) ` {i..<length simplex}))"
proof (induction "length simplex - i" arbitrary: i fv sc)
  case 0
  then show ?case by (subst all_faces_in_from_step) simp
next
  case (Suc n)
  then have n: "n = length simplex - Suc i" and i: "i < length simplex" by simp_all
  let ?g = "\<lambda>j. the (lookup sc (set (facet simplex j)))"
  from Suc.prems obtain f where f: "lookup sc (set (facet simplex i)) = Some f"
    using i by (subst (asm) all_faces_in_from_step) (auto split: option.splits)
  then have e: "all_faces_in_from simplex i fv sc
                  = all_faces_in_from simplex (Suc i) (max fv f) (log_find sc (facet simplex i))"
    using i by (subst all_faces_in_from_step) simp
  have "fst (snd (all_faces_in_from simplex i fv sc))
          = Max (insert (max fv f) (?g ` {Suc i..<length simplex}))"
    using Suc.hyps(1)[OF n] Suc.prems e by simp
  also have "\<dots> = Max (insert fv (insert f (?g ` {Suc i..<length simplex})))"
    by (cases "?g ` {Suc i..<length simplex} = {}") (simp_all add: max.assoc max.commute)
  also have "insert f (?g ` {Suc i..<length simplex}) = ?g ` {i..<length simplex}"
  proof -
    have "{i..<length simplex} = insert i {Suc i..<length simplex}" using i by auto
    then show ?thesis using f by simp
  qed
  finally show ?case .
qed

subsection \<open>One turn of each loop\<close>

lemma deref_Cons [simp]: "deref pe (p # it) = p"
  by (simp add: deref_def)

lemma in_window_Nil [simp]: "\<not> in_window pe a nr []"
  by (simp add: in_window_def)

lemma in_window_Cons [simp]: "in_window pe a nr ((v, d) # it) = le_norelax (d - a) nr"
  by (simp add: in_window_def)

lemma dim_zero_loop_Nil: "dim_zero_loop pe a nr wba [] s sc = (wba, s, sc)"
  by (subst dim_zero_loop.simps) simp

lemma dim_zero_loop_Cons:
  "dim_zero_loop pe a nr wba ((v, d) # it) s sc =
     (if le_norelax (d - a) nr then
        (let r = all_faces_in (s @ [v]) (excess d nr) sc
         in dim_zero_loop pe a (if lt_norelax d nr then Finite d else nr) (fst r \<or> wba) it s
              (if fst r then insert_simplex (snd (snd r)) (s @ [v]) (fst (snd r)) else snd (snd r)))
      else (wba, s, sc))"
  by (subst dim_zero_loop.simps) (auto simp: Let_def split: prod.splits)

lemma add_all_faces_of_dimension_Nil:
  "add_all_faces_of_dimension pe dm a nr [] s sc = (False, s, sc)"
  by (subst add_all_faces_of_dimension.simps) simp

lemma add_all_faces_of_dimension_Cons:
  "add_all_faces_of_dimension pe dm a nr (p # it) s sc =
     (if dm > 0 then dim_pos_loop pe dm a nr False (p # it) s sc
      else if dm = 0 then dim_zero_loop pe a nr False (p # it) s sc
      else (False, s, sc))"
  by (subst add_all_faces_of_dimension.simps) simp

lemma dim_pos_loop_Nil: "dim_pos_loop pe dm a nr wba [] s sc = (wba, s, sc)"
  by (subst dim_pos_loop.simps) simp

lemma dim_pos_loop_Cons_raw:
  "dim_pos_loop pe dm a nr wba ((v, d) # it) s sc =
     (if le_norelax (d - a) nr then
        (let sc1 = log_find sc (s @ [v]);
             r1 = (if lookup sc (set (s @ [v])) \<noteq> None
                   then add_all_faces_of_dimension pe (dm - 1) a nr it (s @ [v]) sc1
                   else (False, s @ [v], sc1));
             nr1 = (if le_norelax d nr then Finite d else nr);
             r2 = add_all_faces_of_dimension pe dm a nr1 it (butlast (fst (snd r1))) (snd (snd r1))
         in dim_pos_loop pe dm a nr1 (fst r2 \<or> fst r1 \<or> wba) it (fst (snd r2)) (snd (snd r2)))
      else (wba, s, sc))"
  by (subst dim_pos_loop.simps) (auto simp: Let_def find_simplex_eq split: prod.splits)

lemma dim_zero_loop_simplex: "fst (snd (dim_zero_loop pe a nr wba it s sc)) = s"
proof (induction it arbitrary: nr wba sc)
  case Nil
  show ?case by (simp add: dim_zero_loop_Nil)
next
  case (Cons p it)
  obtain v d where p: "p = (v, d)" by (cases p)
  show ?case unfolding p by (simp add: dim_zero_loop_Cons Let_def Cons.IH)
qed

lemma add_simplex_both:
  "fst (snd (add_all_faces_of_dimension pe dm a nr it s sc)) = s
   \<and> fst (snd (dim_pos_loop pe dm a nr wba it s sc)) = s"
proof (induction it arbitrary: dm nr wba s sc)
  case Nil
  show ?case by (simp add: add_all_faces_of_dimension_Nil dim_pos_loop_Nil)
next
  case (Cons p it)
  obtain v d where p: "p = (v, d)" by (cases p)
  have loop: "fst (snd (dim_pos_loop pe dm a nr wba (p # it) s sc)) = s" for dm nr wba s sc
    unfolding p by (simp add: dim_pos_loop_Cons_raw Let_def Cons.IH)
  show ?case
    by (simp add: add_all_faces_of_dimension_Cons loop dim_zero_loop_simplex)
qed

lemma add_all_faces_of_dimension_simplex:
  "fst (snd (add_all_faces_of_dimension pe dm a nr it s sc)) = s"
  using add_simplex_both by blast

lemma dim_pos_loop_simplex: "fst (snd (dim_pos_loop pe dm a nr wba it s sc)) = s"
  using add_simplex_both by blast

lemma dim_pos_loop_Cons:
  "dim_pos_loop pe dm a nr wba ((v, d) # it) s sc =
     (if le_norelax (d - a) nr then
        (let sc1 = log_find sc (s @ [v]);
             r1 = (if lookup sc (set (s @ [v])) \<noteq> None
                   then add_all_faces_of_dimension pe (dm - 1) a nr it (s @ [v]) sc1
                   else (False, s @ [v], sc1));
             nr1 = (if le_norelax d nr then Finite d else nr);
             r2 = add_all_faces_of_dimension pe dm a nr1 it s (snd (snd r1))
         in dim_pos_loop pe dm a nr1 (fst r2 \<or> fst r1 \<or> wba) it s (snd (snd r2)))
      else (wba, s, sc))"
  by (subst dim_pos_loop_Cons_raw)
     (simp add: Let_def add_all_faces_of_dimension_simplex)

subsection \<open>The effect of add\_all\_faces\_of\_dimension\<close>

text \<open>
  The assertions of the source hold: \<open>simplex\<close> is not empty where it is popped and
  is given back as it was received, so it is empty again after the call of the main loop.
\<close>

lemma effect_refl: "effect s ids dm wba sc (wba, s, sc)"
  unfolding effect_def by (auto intro: exI[of _ "[]"])

lemma effect_seq:
  assumes "effect s ids dm wba sc r1" and "effect s ids dm (fst r1) (snd (snd r1)) r2"
  shows "effect s ids dm wba sc r2"
proof -
  from assms(1) obtain cs1 where 1: "replay sc cs1 = Some (snd (snd r1))"
    "fst r1 \<longleftrightarrow> wba \<or> (\<exists>c \<in> set cs1. is_insert c)" "\<forall>c \<in> set cs1. call_ok s ids dm c"
    unfolding effect_def by blast
  from assms(2) obtain cs2 where 2: "replay (snd (snd r1)) cs2 = Some (snd (snd r2))"
    "fst r2 \<longleftrightarrow> fst r1 \<or> (\<exists>c \<in> set cs2. is_insert c)" "\<forall>c \<in> set cs2. call_ok s ids dm c"
    and s: "fst (snd r2) = s"
    unfolding effect_def by blast
  have "replay sc (cs1 @ cs2) = Some (snd (snd r2))" using 1(1) 2(1) by (rule replay_trans)
  moreover have "fst r2 \<longleftrightarrow> wba \<or> (\<exists>c \<in> set (cs1 @ cs2). is_insert c)"
    using 1(2) 2(2) by auto
  moreover have "\<forall>c \<in> set (cs1 @ cs2). call_ok s ids dm c" using 1(3) 2(3) by auto
  ultimately show ?thesis unfolding effect_def using s by blast
qed

lemma subseq_snoc_ids:
  assumes "subseq vs (s @ ids)"
  shows "subseq vs (s @ v # ids)"
proof -
  have "subseq (s @ ids) (s @ v # ids)" by (intro list_emb_append_mono) auto
  with assms show ?thesis using subseq_order.order_trans by blast
qed

lemma call_ok_ids: "call_ok s ids dm c \<Longrightarrow> call_ok s (v # ids) dm c"
  by (cases c) (auto intro: subseq_snoc_ids)

lemma effect_ids: "effect s ids dm wba sc r \<Longrightarrow> effect s (v # ids) dm wba sc r"
  unfolding effect_def by (meson call_ok_ids)

lemma call_ok_push: "call_ok (s @ [v]) ids (dm - 1) c \<Longrightarrow> call_ok s (v # ids) dm c"
  by (cases c) auto

lemma effect_push:
  assumes "effect (s @ [v]) ids (dm - 1) False sc r"
  shows "effect s (v # ids) dm wba sc (fst r \<or> wba, s, snd (snd r))"
proof -
  from assms obtain cs where "replay sc cs = Some (snd (snd r))"
    "fst r \<longleftrightarrow> (\<exists>c \<in> set cs. is_insert c)" "\<forall>c \<in> set cs. call_ok (s @ [v]) ids (dm - 1) c"
    unfolding effect_def by auto
  then show ?thesis unfolding effect_def
    by (intro conjI exI[of _ cs]) (auto intro: call_ok_push)
qed

lemma effect_find: "effect s (v # ids) dm wba sc (wba, s, log_find sc (s @ [v]))"
  unfolding effect_def by (intro conjI exI[of _ "[Find (s @ [v])]"]) auto

lemma subseq_facet: "subseq (facet xs j) xs"
proof -
  have "suffix (drop (Suc j) xs) (drop j xs)"
    by (metis drop_drop plus_1_eq_Suc suffix_drop)
  then have "subseq (take j xs @ drop (Suc j) xs) (take j xs @ drop j xs)"
    by (intro list_emb_append_mono) auto
  then show ?thesis by (simp add: facet_def)
qed

lemma effect_faces:
  "effect s (v # ids) dm wba sc (wba, s, snd (snd (all_faces_in (s @ [v]) fv sc)))"
proof -
  obtain cs where cs: "replay sc cs = Some (snd (snd (all_faces_in (s @ [v]) fv sc)))"
    "\<forall>c \<in> set cs. \<exists>j<length (s @ [v]). c = Find (facet (s @ [v]) j)"
    unfolding all_faces_in_def using all_faces_in_from_replay by blast
  have "call_ok s (v # ids) dm c" if "c \<in> set cs" for c
  proof -
    from cs(2) that obtain j where "c = Find (facet (s @ [v]) j)" by blast
    moreover have "subseq (facet (s @ [v]) j) (s @ v # ids)"
      using subseq_rev_drop_many[OF subseq_facet[of "s @ [v]" j], of ids] by simp
    ultimately show ?thesis by simp
  qed
  moreover have "\<not> is_insert c" if "c \<in> set cs" for c
    using cs(2) that by auto
  ultimately show ?thesis unfolding effect_def using cs(1)
    by (intro conjI exI[of _ cs]) auto
qed

lemma effect_insert:
  assumes "facets_verified sc (s @ [v]) f"
  shows "effect s (v # ids) 0 wba sc (True, s, insert_simplex sc (s @ [v]) f)"
  unfolding effect_def using assms
  by (intro conjI exI[of _ "[Insert (s @ [v]) f]"]) auto

lemma all_faces_in_verified:
  assumes "fst (all_faces_in simplex fv sc)"
  shows "facets_verified (snd (snd (all_faces_in simplex fv sc))) simplex
           (fst (snd (all_faces_in simplex fv sc)))"
proof -
  let ?g = "\<lambda>j. the (lookup sc (set (facet simplex j)))"
  have v: "fst (snd (all_faces_in simplex fv sc)) = Max (insert fv (?g ` {0..<length simplex}))"
    using assms all_faces_in_from_value unfolding all_faces_in_def by blast
  have l: "lookup (snd (snd (all_faces_in simplex fv sc))) = lookup sc"
    unfolding all_faces_in_def by (rule all_faces_in_from_lookup)
  have p: "lookup sc (set (facet simplex j)) \<noteq> None" if "j < length simplex" for j
    using assms that all_faces_in_from_ok[of simplex 0 fv sc] unfolding all_faces_in_def by simp
  have m: "?g j \<le> Max (insert fv (?g ` {0..<length simplex}))" if "j < length simplex" for j
    using that by (intro Max_ge) auto
  show ?thesis unfolding facets_verified_def l v
  proof (intro impI ballI)
    fix i assume "i \<in> set [0..<length simplex]"
    then have i: "i < length simplex" by simp
    then obtain g where g: "lookup sc (set (facet simplex i)) = Some g" using p by blast
    then have "g \<le> Max (insert fv (?g ` {0..<length simplex}))" using m[OF i] by simp
    then show "case lookup sc (set (facet simplex i)) of None \<Rightarrow> False
               | Some g \<Rightarrow> g \<le> Max (insert fv (?g ` {0..<length simplex}))"
      using g by simp
  qed
qed

lemma dim_zero_loop_effect:
  "effect s (map fst it) 0 wba sc (dim_zero_loop pe a nr wba it s sc)"
proof (induction it arbitrary: nr wba sc)
  case Nil
  show ?case by (simp add: dim_zero_loop_Nil effect_refl)
next
  case (Cons p it)
  obtain v d where p: "p = (v, d)" by (cases p)
  show ?case
  proof (cases "le_norelax (d - a) nr")
    case False
    then show ?thesis by (simp add: p dim_zero_loop_Cons effect_refl)
  next
    case True
    let ?r = "all_faces_in (s @ [v]) (excess d nr) sc"
    let ?nr = "if lt_norelax d nr then Finite d else nr"
    let ?sc2 = "if fst ?r then insert_simplex (snd (snd ?r)) (s @ [v]) (fst (snd ?r)) else snd (snd ?r)"
    have e: "dim_zero_loop pe a nr wba (p # it) s sc
               = dim_zero_loop pe a ?nr (fst ?r \<or> wba) it s ?sc2"
      using True by (simp add: p dim_zero_loop_Cons Let_def)
    have 1: "effect s (v # map fst it) 0 wba sc (wba, s, snd (snd ?r))"
      by (rule effect_faces)
    have 2: "effect s (v # map fst it) 0 wba sc (fst ?r \<or> wba, s, ?sc2)"
    proof (cases "fst ?r")
      case False
      then show ?thesis using 1 by simp
    next
      case True
      have "effect s (v # map fst it) 0 wba (snd (snd ?r))
              (True, s, insert_simplex (snd (snd ?r)) (s @ [v]) (fst (snd ?r)))"
        by (rule effect_insert) (rule all_faces_in_verified[OF True])
      with 1 have "effect s (v # map fst it) 0 wba sc
              (True, s, insert_simplex (snd (snd ?r)) (s @ [v]) (fst (snd ?r)))"
        by (auto intro: effect_seq)
      then show ?thesis using True by simp
    qed
    have 3: "effect s (v # map fst it) 0 (fst ?r \<or> wba) ?sc2
               (dim_zero_loop pe a ?nr (fst ?r \<or> wba) it s ?sc2)"
      by (rule effect_ids) (rule Cons.IH)
    show ?thesis unfolding e using effect_seq[OF 2] 3 by (simp add: p)
  qed
qed

lemma add_effect_both:
  "effect s (map fst it) dm False sc (add_all_faces_of_dimension pe dm a nr it s sc)
   \<and> effect s (map fst it) dm wba sc (dim_pos_loop pe dm a nr wba it s sc)"
proof (induction it arbitrary: dm nr wba s sc)
  case Nil
  show ?case by (simp add: add_all_faces_of_dimension_Nil dim_pos_loop_Nil effect_refl)
next
  case (Cons p it)
  obtain v d where p: "p = (v, d)" by (cases p)
  have loop: "effect s (map fst (p # it)) dm wba sc (dim_pos_loop pe dm a nr wba (p # it) s sc)"
    for dm nr wba s sc
  proof (cases "le_norelax (d - a) nr")
    case False
    then show ?thesis by (simp add: p dim_pos_loop_Cons effect_refl)
  next
    case True
    let ?sc1 = "log_find sc (s @ [v])"
    let ?r1 = "if lookup sc (set (s @ [v])) \<noteq> None
               then add_all_faces_of_dimension pe (dm - 1) a nr it (s @ [v]) ?sc1
               else (False, s @ [v], ?sc1)"
    let ?nr = "if le_norelax d nr then Finite d else nr"
    let ?r2 = "add_all_faces_of_dimension pe dm a ?nr it s (snd (snd ?r1))"
    have e: "dim_pos_loop pe dm a nr wba (p # it) s sc
               = dim_pos_loop pe dm a ?nr (fst ?r2 \<or> fst ?r1 \<or> wba) it s (snd (snd ?r2))"
      using True by (simp add: p dim_pos_loop_Cons Let_def)
    have 0: "effect s (v # map fst it) dm wba sc (wba, s, ?sc1)" by (rule effect_find)
    have "effect (s @ [v]) (map fst it) (dm - 1) False ?sc1 ?r1"
      using Cons.IH by (simp add: effect_refl)
    then have "effect s (v # map fst it) dm wba ?sc1 (fst ?r1 \<or> wba, s, snd (snd ?r1))"
      by (rule effect_push)
    with 0 have 1: "effect s (v # map fst it) dm wba sc (fst ?r1 \<or> wba, s, snd (snd ?r1))"
      by (auto intro: effect_seq)
    have "effect s (v # map fst it) dm False (snd (snd ?r1)) ?r2"
      using Cons.IH by (intro effect_ids) blast
    then have "effect s (v # map fst it) dm (fst ?r1 \<or> wba) (snd (snd ?r1))
                 (fst ?r2 \<or> fst ?r1 \<or> wba, s, snd (snd ?r2))"
      unfolding effect_def by auto
    with 1 have 2: "effect s (v # map fst it) dm wba sc
                      (fst ?r2 \<or> fst ?r1 \<or> wba, s, snd (snd ?r2))"
      by (auto intro: effect_seq)
    have 3: "effect s (v # map fst it) dm (fst ?r2 \<or> fst ?r1 \<or> wba) (snd (snd ?r2))
               (dim_pos_loop pe dm a ?nr (fst ?r2 \<or> fst ?r1 \<or> wba) it s (snd (snd ?r2)))"
      using Cons.IH by (intro effect_ids) blast
    show ?thesis unfolding e using effect_seq[OF 2] 3 by (simp add: p)
  qed
  show ?case
    using loop dim_zero_loop_effect[of s "p # it" False sc pe a nr]
    by (simp add: add_all_faces_of_dimension_Cons effect_refl)
qed

lemma add_all_faces_of_dimension_effect:
  "effect s (map fst it) dm False sc (add_all_faces_of_dimension pe dm a nr it s sc)"
  using add_effect_both by blast

subsection \<open>Closure and monotonicity under a checked insertion\<close>

lemma closed_mapD: "closed_map m \<Longrightarrow> m S = Some f \<Longrightarrow> F \<subseteq> S \<Longrightarrow> F \<noteq> {} \<Longrightarrow> \<exists>g. m F = Some g"
  unfolding closed_map_def by (metis option.distinct(1) option.exhaust)

lemma monotone_mapD:
  "monotone_map m \<Longrightarrow> m S = Some f \<Longrightarrow> m F = Some g \<Longrightarrow> F \<subseteq> S \<Longrightarrow> F \<noteq> {} \<Longrightarrow> g \<le> f"
  unfolding monotone_map_def by blast

lemma set_facet: "i < length vs \<Longrightarrow> insert (vs ! i) (set (facet vs i)) = set vs"
proof -
  assume "i < length vs"
  then have "vs = take i vs @ vs ! i # drop (Suc i) vs" by (rule id_take_nth_drop)
  then have "set vs = set (take i vs @ vs ! i # drop (Suc i) vs)" by simp
  then show ?thesis by (simp add: facet_def)
qed

lemma facet_covers:
  assumes i: "i < length vs" and F: "F \<subseteq> set vs" "vs ! i \<notin> F"
  shows "F \<subseteq> set (facet vs i)"
proof
  fix x assume "x \<in> F"
  with F have "x \<in> set vs" "x \<noteq> vs ! i" by auto
  with set_facet[OF i] show "x \<in> set (facet vs i)" by blast
qed

lemma facets_verifiedD:
  assumes v: "facets_verified c vs f" and l: "2 \<le> length vs" and i: "i < length vs"
  shows "\<exists>g. lookup c (set (facet vs i)) = Some g \<and> g \<le> f"
proof -
  have "case lookup c (set (facet vs i)) of None \<Rightarrow> False | Some g \<Rightarrow> g \<le> f"
    using v l i unfolding facets_verified_def by simp
  then show ?thesis by (cases "lookup c (set (facet vs i))") auto
qed

lemma proper_faces_verified:
  assumes v: "facets_verified c vs f"
    and c: "closed_map (lookup c)" and mo: "monotone_map (lookup c)"
    and F: "F \<subseteq> set vs" "F \<noteq> {}" "F \<noteq> set vs"
  shows "\<exists>g. lookup c F = Some g \<and> g \<le> f"
proof -
  from F obtain x where x: "x \<in> set vs" "x \<notin> F" by auto
  from F obtain y where y: "y \<in> F" by auto
  with F x have "x \<noteq> y" "y \<in> set vs" by auto
  with x have "2 \<le> card (set vs)"
    by (metis card_le_Suc0_iff_eq List.finite_set not_less_eq_eq numeral_2_eq_2)
  then have l: "2 \<le> length vs" using card_length[of vs] by linarith
  from x obtain i where i: "i < length vs" "vs ! i = x" by (auto simp: in_set_conv_nth)
  from facets_verifiedD[OF v l i(1)] obtain g where
    g: "lookup c (set (facet vs i)) = Some g" "g \<le> f" by blast
  have sub: "F \<subseteq> set (facet vs i)" using facet_covers[OF i(1) F(1)] i(2) x(2) by simp
  from closed_mapD[OF c g(1) sub F(2)] obtain h where h: "lookup c F = Some h" by blast
  from monotone_mapD[OF mo g(1) h sub F(2)] have "h \<le> g" .
  with h g show ?thesis by auto
qed

lemma closed_map_new:
  assumes c: "closed_map m" and pf: "\<And>F. F \<subseteq> S \<Longrightarrow> F \<noteq> {} \<Longrightarrow> F \<noteq> S \<Longrightarrow> m F \<noteq> None"
  shows "closed_map (m(S \<mapsto> f))"
  unfolding closed_map_def
proof (intro allI impI, elim conjE)
  fix T F assume T: "(m(S \<mapsto> f)) T \<noteq> None" and F: "F \<subseteq> T" "F \<noteq> {}"
  show "(m(S \<mapsto> f)) F \<noteq> None"
  proof (cases "F = S")
    case True
    then show ?thesis by simp
  next
    case FS: False
    have "m F \<noteq> None"
    proof (cases "T = S")
      case True
      with pf[of F] F FS show ?thesis by simp
    next
      case False
      with T obtain t where "m T = Some t" by auto
      from closed_mapD[OF c this F] show ?thesis by simp
    qed
    with FS show ?thesis by simp
  qed
qed

lemma monotone_map_new:
  assumes c: "closed_map m" and mo: "monotone_map m"
    and pf: "\<And>F. F \<subseteq> S \<Longrightarrow> F \<noteq> {} \<Longrightarrow> F \<noteq> S \<Longrightarrow> \<exists>g. m F = Some g \<and> g \<le> f"
    and up: "\<And>g. m S = Some g \<Longrightarrow> f \<le> g"
  shows "monotone_map (m(S \<mapsto> f))"
  unfolding monotone_map_def
proof (intro allI impI, elim conjE)
  fix T F t g
  assume T: "(m(S \<mapsto> f)) T = Some t" and Fg: "(m(S \<mapsto> f)) F = Some g"
    and F: "F \<subseteq> T" "F \<noteq> {}"
  show "g \<le> t"
  proof (cases "T = S")
    case TS: True
    show ?thesis
    proof (cases "F = S")
      case True
      with TS T Fg show ?thesis by simp
    next
      case False
      from T TS have t: "t = f" by simp
      from pf[of F] F TS False obtain g' where g': "m F = Some g'" "g' \<le> f" by blast
      from Fg False have "m F = Some g" by simp
      with g' t show ?thesis by simp
    qed
  next
    case TS: False
    with T have mT: "m T = Some t" by (metis fun_upd_other)
    show ?thesis
    proof (cases "F = S")
      case True
      with Fg have gf: "g = f" by simp
      from closed_mapD[OF c mT F] obtain h where h: "m F = Some h" by blast
      from monotone_mapD[OF mo mT h F] have "h \<le> t" .
      moreover from up[of h] h True have "f \<le> h" by simp
      ultimately show ?thesis using gf by simp
    next
      case False
      with Fg have "m F = Some g" by simp
      then show ?thesis using monotone_mapD[OF mo mT _ F] by blast
    qed
  qed
qed

lemma insert_keeps_closed_monotone:
  assumes I: "closed_map (lookup c) \<and> monotone_map (lookup c)" and v: "facets_verified c vs f"
  shows "closed_map (lookup (insert_simplex c vs f)) \<and> monotone_map (lookup (insert_simplex c vs f))"
proof -
  let ?m = "lookup c" and ?S = "set vs"
  from I have c: "closed_map ?m" and mo: "monotone_map ?m" by simp_all
  have pf: "\<exists>g. ?m F = Some g \<and> g \<le> f" if "F \<subseteq> ?S" "F \<noteq> {}" "F \<noteq> ?S" for F
    using proper_faces_verified[OF v c mo that] .
  have pn: "?m F \<noteq> None" if "F \<subseteq> ?S" "F \<noteq> {}" "F \<noteq> ?S" for F
    using pf[OF that] by auto
  show ?thesis
  proof (cases "?m ?S")
    case None
    then have e: "lookup (insert_simplex c vs f) = ?m(?S \<mapsto> f)"
      by (simp add: lookup_insert_simplex)
    have "closed_map (?m(?S \<mapsto> f))" by (rule closed_map_new[OF c]) (rule pn)
    moreover have "monotone_map (?m(?S \<mapsto> f))"
      by (rule monotone_map_new[OF c mo]) (use pf None in auto)
    ultimately show ?thesis unfolding e by simp
  next
    case (Some y)
    show ?thesis
    proof (cases "keeps_lower c")
      case False
      with Some have "lookup (insert_simplex c vs f) = ?m" by (simp add: lookup_insert_simplex)
      with I show ?thesis by simp
    next
      case True
      with Some have e: "lookup (insert_simplex c vs f) = ?m(?S \<mapsto> min y f)"
        by (simp add: lookup_insert_simplex)
      have pf': "\<exists>g. ?m F = Some g \<and> g \<le> min y f" if "F \<subseteq> ?S" "F \<noteq> {}" "F \<noteq> ?S" for F
      proof -
        from pf[OF that] obtain g where g: "?m F = Some g" "g \<le> f" by blast
        from monotone_mapD[OF mo Some g(1) that(1,2)] have "g \<le> y" .
        with g show ?thesis by simp
      qed
      have up: "min y f \<le> g" if "?m ?S = Some g" for g using that Some by simp
      have "closed_map (?m(?S \<mapsto> min y f))" by (rule closed_map_new[OF c]) (rule pn)
      moreover have "monotone_map (?m(?S \<mapsto> min y f))"
        by (rule monotone_map_new[OF c mo]) (use pf' up in auto)
      ultimately show ?thesis unfolding e by simp
    qed
  qed
qed

lemma replay_closed_monotone:
  assumes "replay sc cs = Some sc'" and "closed_map (lookup sc) \<and> monotone_map (lookup sc)"
  shows "closed_map (lookup sc') \<and> monotone_map (lookup sc')"
  using replay_invariant[where I = "\<lambda>m. closed_map m \<and> monotone_map m", OF assms]
    insert_keeps_closed_monotone by blast

lemma replay_card_bound:
  assumes "replay sc cs = Some sc'" and "\<forall>S. lookup sc S \<noteq> None \<longrightarrow> card S \<le> K"
    and "\<forall>vs f. Insert vs f \<in> set cs \<longrightarrow> length vs \<le> K"
  shows "\<forall>S. lookup sc' S \<noteq> None \<longrightarrow> card S \<le> K"
proof (rule replay_invariant[where I = "\<lambda>m. \<forall>S. m S \<noteq> None \<longrightarrow> card S \<le> K", OF assms(1,2)])
  fix c vs f
  assume a: "\<forall>S. lookup c S \<noteq> None \<longrightarrow> card S \<le> K" and "Insert vs f \<in> set cs"
  moreover have "card (set vs) \<le> length vs" by (rule card_length)
  ultimately have cv: "card (set vs) \<le> K" using assms(3) by force
  show "\<forall>S. lookup (insert_simplex c vs f) S \<noteq> None \<longrightarrow> card S \<le> K"
  proof (intro allI impI)
    fix S assume "lookup (insert_simplex c vs f) S \<noteq> None"
    then show "card S \<le> K"
      using a cv by (cases "S = set vs") (simp_all add: lookup_insert_simplex_other)
  qed
qed

text \<open>
  A replay loses no simplex and raises no filtration value; it leaves the value of a
  vertex as it is when it inserts lists of two or more vertices only, and every value when
  the complex is one that leaves stored values as they are.
\<close>

lemma replay_keeps_lower: "replay sc cs = Some sc' \<Longrightarrow> keeps_lower sc' = keeps_lower sc"
proof (induction cs arbitrary: sc)
  case Nil
  then show ?case by simp
next
  case (Cons c cs)
  then show ?case by (cases c) (auto split: if_splits)
qed

lemma replay_lowers:
  assumes "replay sc cs = Some sc'" and "lookup sc S = Some f"
  shows "\<exists>g. lookup sc' S = Some g \<and> g \<le> f"
proof (rule replay_invariant[where I = "\<lambda>m. \<exists>g. m S = Some g \<and> g \<le> f", OF assms(1)])
  show "\<exists>g. lookup sc S = Some g \<and> g \<le> f" using assms(2) by simp
next
  fix c vs h
  assume "\<exists>g. lookup c S = Some g \<and> g \<le> f"
  then obtain g where g: "lookup c S = Some g" "g \<le> f" by blast
  from lookup_insert_simplex_lower[OF g(1), of vs h] g(2)
  show "\<exists>g. lookup (insert_simplex c vs h) S = Some g \<and> g \<le> f" by fastforce
qed

lemma replay_present:
  assumes "replay sc cs = Some sc'" and "lookup sc S \<noteq> None"
  shows "lookup sc' S \<noteq> None"
proof -
  from assms(2) obtain f where "lookup sc S = Some f" by auto
  from replay_lowers[OF assms(1) this] show ?thesis by auto
qed

lemma replay_keeps_vertex:
  assumes "replay sc cs = Some sc'" and "lookup sc {v} = Some f"
    and l: "\<forall>vs g. Insert vs g \<in> set cs \<longrightarrow> 2 \<le> length vs"
  shows "lookup sc' {v} = Some f"
proof (rule replay_invariant[where I = "\<lambda>m. m {v} = Some f", OF assms(1,2)])
  fix c vs g
  assume s: "lookup c {v} = Some f" and fv: "facets_verified c vs g" and "Insert vs g \<in> set cs"
  with l have l2: "2 \<le> length vs" by blast
  show "lookup (insert_simplex c vs g) {v} = Some f"
  proof (cases "set vs = {v}")
    case False
    then show ?thesis using s by (simp add: lookup_insert_simplex_other)
  next
    case True
    have l0: "0 < length vs" using l2 by (cases vs) simp_all
    from set_facet[OF this] have "set (facet vs 0) \<subseteq> set vs" by blast
    moreover have "facet vs 0 \<noteq> []" using l2 by (cases vs) (auto simp: facet_def)
    ultimately have "set (facet vs 0) = {v}" using True
      by (metis set_empty subset_singletonD)
    with facets_verifiedD[OF fv l2 l0] s have "f \<le> g" by auto
    then show ?thesis using s True by (simp add: lookup_insert_simplex split: option.splits)
  qed
qed

lemma replay_dimension:
  "replay sc cs = Some sc' \<Longrightarrow> \<forall>c \<in> set cs. \<forall>d. c \<noteq> Set_dimension d \<Longrightarrow> dimension sc' = dimension sc"
proof (induction cs arbitrary: sc)
  case Nil
  then show ?case by simp
next
  case (Cons c cs)
  then show ?case by (cases c) (auto split: if_splits)
qed

subsection \<open>Passes, the main loop, the seeding\<close>

lemma dimension_pass_Cons:
  "dimension_pass k a (aw # aws) sc =
     (let r = add_all_faces_of_dimension (past_end aw) k a Infinity (ranking aw) [] sc;
          p = dimension_pass k a aws (snd (snd r))
      in (if fst r then aw # fst p else fst p, snd p))"
  by (simp add: Let_def split: prod.splits)

declare dimension_pass.simps(2) [simp del]

lemma dimension_pass_subseq: "subseq (fst (dimension_pass k a aws sc)) aws"
proof (induction aws arbitrary: sc)
  case Nil
  show ?case by simp
next
  case (Cons aw aws)
  show ?case unfolding dimension_pass_Cons Let_def using Cons.IH by auto
qed

lemma dimension_pass_trace:
  "\<exists>cs. replay sc cs = Some (snd (dimension_pass k a aws sc))
        \<and> (\<forall>c \<in> set cs. \<exists>aw \<in> set aws. call_ok [] (map fst (ranking aw)) k c)"
proof (induction aws arbitrary: sc)
  case Nil
  have "replay sc [] = Some (snd (dimension_pass k a [] sc))" by simp
  then show ?case by (intro exI[of _ "[]"]) simp
next
  case (Cons aw aws)
  let ?r = "add_all_faces_of_dimension (past_end aw) k a Infinity (ranking aw) [] sc"
  have "effect [] (map fst (ranking aw)) k False sc ?r"
    by (rule add_all_faces_of_dimension_effect)
  then obtain cs1 where 1: "replay sc cs1 = Some (snd (snd ?r))"
    "\<forall>c \<in> set cs1. call_ok [] (map fst (ranking aw)) k c"
    unfolding effect_def by blast
  from Cons.IH[of "snd (snd ?r)"] obtain cs2 where
    2: "replay (snd (snd ?r)) cs2 = Some (snd (dimension_pass k a aws (snd (snd ?r))))"
       "\<forall>c \<in> set cs2. \<exists>aw \<in> set aws. call_ok [] (map fst (ranking aw)) k c" by blast
  have "replay sc (cs1 @ cs2) = Some (snd (dimension_pass k a (aw # aws) sc))"
    using replay_trans[OF 1(1) 2(1)] by (simp add: dimension_pass_Cons Let_def)
  moreover have "\<forall>c \<in> set (cs1 @ cs2). \<exists>w \<in> set (aw # aws). call_ok [] (map fst (ranking w)) k c"
    using 1(2) 2(2) by auto
  ultimately show ?case by blast
qed

lemma main_loop_step:
  "main_loop k lm a aws sc =
     (if aws \<noteq> [] \<and> k \<le> lm then
        main_loop (k + 1) lm a (fst (dimension_pass k a aws sc)) (snd (dimension_pass k a aws sc))
      else (k, aws, sc))"
  by (subst main_loop.simps) (simp split: prod.splits)

lemma main_loop_trace:
  "\<exists>k' aws' sc' cs. main_loop k lm a aws sc = (k', aws', sc')
      \<and> k \<le> k' \<and> (aws' = [] \<or> lm < k') \<and> subseq aws' aws
      \<and> replay sc cs = Some sc'
      \<and> (\<forall>c \<in> set cs. \<exists>aw \<in> set aws. \<exists>j. k \<le> j \<and> j < k' \<and> call_ok [] (map fst (ranking aw)) j c)"
proof (induction "nat (lm + 1 - k)" arbitrary: k aws sc)
  case 0
  then have "main_loop k lm a aws sc = (k, aws, sc)" by (subst main_loop_step) simp
  moreover have "replay sc [] = Some sc" by simp
  ultimately show ?case using 0 by (intro exI[of _ k] exI[of _ aws] exI[of _ sc] exI[of _ "[]"]) auto
next
  case (Suc n)
  show ?case
  proof (cases "aws \<noteq> [] \<and> k \<le> lm")
    case False
    then have "main_loop k lm a aws sc = (k, aws, sc)" by (subst main_loop_step) auto
    moreover have "replay sc [] = Some sc" by simp
    ultimately show ?thesis using False
      by (intro exI[of _ k] exI[of _ aws] exI[of _ sc] exI[of _ "[]"]) auto
  next
    case True
    let ?p = "dimension_pass k a aws sc"
    have e: "main_loop k lm a aws sc = main_loop (k + 1) lm a (fst ?p) (snd ?p)"
      using True by (subst main_loop_step) simp
    from dimension_pass_trace[of sc k a aws] obtain cs1 where
      1: "replay sc cs1 = Some (snd ?p)"
         "\<forall>c \<in> set cs1. \<exists>aw \<in> set aws. call_ok [] (map fst (ranking aw)) k c" by blast
    have "n = nat (lm + 1 - (k + 1))" using Suc.hyps(2) by simp
    from Suc.hyps(1)[OF this, of "fst ?p" "snd ?p"] obtain k' aws' sc' cs2 where
      2: "main_loop (k + 1) lm a (fst ?p) (snd ?p) = (k', aws', sc')"
         "k + 1 \<le> k'" "aws' = [] \<or> lm < k'" "subseq aws' (fst ?p)"
         "replay (snd ?p) cs2 = Some sc'"
         "\<forall>c \<in> set cs2. \<exists>aw \<in> set (fst ?p). \<exists>j. k + 1 \<le> j \<and> j < k'
             \<and> call_ok [] (map fst (ranking aw)) j c" by blast
    have s: "subseq (fst ?p) aws" by (rule dimension_pass_subseq)
    have ss: "set (fst ?p) \<subseteq> set aws"
    proof
      fix x assume "x \<in> set (fst ?p)"
      from list_emb_set[OF s this] obtain y where "y \<in> set aws" "x = y" by blast
      then show "x \<in> set aws" by simp
    qed
    have "subseq aws' aws" using 2(4) s subseq_order.order_trans by blast
    moreover have "replay sc (cs1 @ cs2) = Some sc'" using replay_trans[OF 1(1) 2(5)] .
    moreover have "\<exists>aw \<in> set aws. \<exists>j. k \<le> j \<and> j < k' \<and> call_ok [] (map fst (ranking aw)) j c"
      if "c \<in> set (cs1 @ cs2)" for c
    proof (cases "c \<in> set cs1")
      case True
      with 1(2) obtain aw where "aw \<in> set aws" "call_ok [] (map fst (ranking aw)) k c" by blast
      then show ?thesis using 2(2) by (intro bexI[of _ aw] exI[of _ k]) auto
    next
      case False
      with that have "c \<in> set cs2" by simp
      with 2(6) obtain aw j where "aw \<in> set (fst ?p)" "k + 1 \<le> j" "j < k'"
        "call_ok [] (map fst (ranking aw)) j c" by blast
      then show ?thesis using ss by (intro bexI[of _ aw] exI[of _ j]) auto
    qed
    ultimately show ?thesis unfolding e using 2(1,2,3)
      by (intro exI[of _ k'] exI[of _ aws'] exI[of _ sc'] exI[of _ "cs1 @ cs2"]) auto
  qed
qed

lemma facets_verified_vertex [simp]: "facets_verified sc [i] f"
  by (simp add: facets_verified_def)

lemma seed_vertices_Suc:
  "seed_vertices (Suc n) sc = insert_simplex (seed_vertices n sc) [n] 0"
  by (simp add: seed_vertices_def)

lemma seed_vertices_replay:
  "replay sc (map (\<lambda>i. Insert [i] 0) [0..<n]) = Some (seed_vertices n sc)"
proof (induction n)
  case 0
  show ?case by (simp add: seed_vertices_def)
next
  case (Suc n)
  show ?case by (simp add: replay_append Suc.IH seed_vertices_Suc)
qed

lemma num_vertices_zero: "num_vertices sc = 0 \<Longrightarrow> lookup sc {i} = None"
proof -
  assume "num_vertices sc = 0"
  then have "\<forall>e \<in> set (entries sc). card (fst e) \<noteq> 1"
    by (simp add: num_vertices_def filter_empty_conv)
  then have "{i} \<notin> fst ` set (entries sc)" by force
  then show ?thesis by (simp add: lookup_def map_of_eq_None_iff)
qed

lemma seed_vertices_lookup:
  assumes "num_vertices sc = 0" and "i < n"
  shows "lookup (seed_vertices n sc) {i} = Some 0"
  using assms(2)
proof (induction n)
  case 0
  then show ?case by simp
next
  case (Suc n)
  show ?case
  proof (cases "i = n")
    case True
    have "lookup (seed_vertices n sc) {n} = None \<or> lookup (seed_vertices n sc) {n} = Some 0"
    proof (induction n)
      case 0
      then show ?case using num_vertices_zero[OF assms(1)] by (simp add: seed_vertices_def)
    next
      case (Suc m)
      have "{Suc m} \<noteq> {m}" by simp
      have "lookup (seed_vertices (Suc m) sc) {Suc m} = None"
      proof -
        have "lookup (seed_vertices k sc) {Suc m} = None" if "k \<le> Suc m" for k
          using that
        proof (induction k)
          case 0
          then show ?case using num_vertices_zero[OF assms(1)] by (simp add: seed_vertices_def)
        next
          case (Suc k)
          then have "{Suc m} \<noteq> set [k]" by simp
          from lookup_insert_simplex_other[OF this] Suc show ?case
            by (simp add: seed_vertices_Suc)
        qed
        then show ?thesis by simp
      qed
      then show ?case by simp
    qed
    then show ?thesis
      using True lookup_insert_simplex_same[of "seed_vertices n sc" "[n]" 0]
      by (auto simp: seed_vertices_Suc split: option.splits)
  next
    case False
    with Suc have "lookup (seed_vertices n sc) {i} = Some 0" by simp
    moreover from False have "{i} \<noteq> set [n]" by simp
    ultimately show ?thesis
      using lookup_insert_simplex_other[of "{i}" "[n]" "seed_vertices n sc" 0]
      by (simp add: seed_vertices_Suc)
  qed
qed

lemma create_complex_success:
  assumes "create_complex wc sc a lm = Inr (True, sc')"
  shows "num_vertices sc = 0 \<and> 0 \<le> a \<and> 0 \<le> lm \<and> nbL wc < 2 ^ 32 \<and> nearest wc \<noteq> []
         \<and> sc' = set_dimension
                   (snd (snd (main_loop 1 lm a (nearest wc) (seed_vertices (nbL wc) sc))))
                   (fst (main_loop 1 lm a (nearest wc) (seed_vertices (nbL wc) sc)) - 1)"
  using assms unfolding create_complex_def Let_def front_def
  by (auto split: if_splits list.splits prod.splits)

lemma create_complex_failure:
  assumes "create_complex wc sc a lm = Inr (False, sc')"
  shows "(0 < num_vertices sc \<or> a < 0 \<or> lm < 0) \<and> sc' = sc"
  using assms unfolding create_complex_def Let_def front_def
  by (auto split: if_splits list.splits prod.splits)

lemma created_complex_has_vertices:
  assumes "create_complex wc sc a lm = Inr (True, sc')" and "0 < nbL wc"
  shows "0 < num_vertices sc'"
proof -
  from create_complex_success[OF assms(1)] have nv: "num_vertices sc = 0"
    and e: "sc' = set_dimension
                   (snd (snd (main_loop 1 lm a (nearest wc) (seed_vertices (nbL wc) sc))))
                   (fst (main_loop 1 lm a (nearest wc) (seed_vertices (nbL wc) sc)) - 1)"
    by simp_all
  let ?s = "seed_vertices (nbL wc) sc"
  from main_loop_trace[of 1 lm a "nearest wc" ?s] obtain cs where
    "replay ?s cs = Some (snd (snd (main_loop 1 lm a (nearest wc) ?s)))" by auto
  from replay_lowers[OF this seed_vertices_lookup[OF nv assms(2)]]
  obtain g where "lookup sc' {0} = Some g" unfolding e by auto
  then have "({0}, g) \<in> set (entries sc')" unfolding lookup_def by (rule map_of_SomeD)
  then have "({0}, g) \<in> set (filter (\<lambda>e. card (fst e) = 1) (entries sc'))" by simp
  then show ?thesis unfolding num_vertices_def by (metis length_pos_if_in_set)
qed

lemma ex_one_run: "create_complex ex_one ex_empty 0 5 = Inr (True, ex_one_result)"
  by code_simp

subsection \<open>Complexes as maps, and the calls of a whole run\<close>

lemma ex_three_run: "create_complex ex_three ex_empty 2 5 = Inr (True, ex_three_result)"
  by code_simp

lemma lookup_present: "lookup sc S \<noteq> None \<longleftrightarrow> S \<in> fst ` set (entries sc)"
  by (simp add: lookup_def map_of_eq_None_iff)

lemma downward_closed_iff: "downward_closed sc \<longleftrightarrow> closed_map (lookup sc)"
proof
  assume dc: "downward_closed sc"
  show "closed_map (lookup sc)" unfolding closed_map_def
  proof (intro allI impI, elim conjE)
    fix S F assume S: "lookup sc S \<noteq> None" and F: "F \<subseteq> S" "F \<noteq> {}"
    from S obtain e where "e \<in> set (entries sc)" "fst e = S"
      unfolding lookup_present by auto
    with dc F show "lookup sc F \<noteq> None" unfolding downward_closed_def by blast
  qed
next
  assume cm: "closed_map (lookup sc)"
  show "downward_closed sc" unfolding downward_closed_def
  proof (intro ballI impI)
    fix e F assume e: "e \<in> set (entries sc)" and F: "F \<in> Pow (fst e)" "F \<noteq> {}"
    from e have "lookup sc (fst e) \<noteq> None" unfolding lookup_present by simp
    then obtain f where "lookup sc (fst e) = Some f" by auto
    from closed_mapD[OF cm this _ F(2)] F(1) show "lookup sc F \<noteq> None" by auto
  qed
qed

lemma filtration_monotone_iff: "filtration_monotone sc \<longleftrightarrow> monotone_map (lookup sc)"
proof
  assume fm: "filtration_monotone sc"
  show "monotone_map (lookup sc)" unfolding monotone_map_def
  proof (intro allI impI, elim conjE)
    fix S F f g
    assume S: "lookup sc S = Some f" and F: "lookup sc F = Some g" "F \<subseteq> S" "F \<noteq> {}"
    from S have "S \<in> fst ` set (entries sc)" using lookup_present[of sc S] by simp
    then obtain e where e: "e \<in> set (entries sc)" "fst e = S" by auto
    with fm F have "case (lookup sc F, lookup sc S) of (Some g, Some f) \<Rightarrow> g \<le> f | _ \<Rightarrow> True"
      unfolding filtration_monotone_def by blast
    with S F show "g \<le> f" by simp
  qed
next
  assume mm: "monotone_map (lookup sc)"
  show "filtration_monotone sc" unfolding filtration_monotone_def
  proof (intro ballI impI)
    fix e F assume "e \<in> set (entries sc)" "F \<in> Pow (fst e)" "F \<noteq> {}"
    then show "case (lookup sc F, lookup sc (fst e)) of (Some g, Some f) \<Rightarrow> g \<le> f | _ \<Rightarrow> True"
      using monotone_mapD[OF mm] by (auto split: option.splits)
  qed
qed

lemma proper_faces_present:
  assumes v: "facets_verified c vs f"
    and c: "closed_map (lookup c)"
    and F: "F \<subseteq> set vs" "F \<noteq> {}" "F \<noteq> set vs"
  shows "lookup c F \<noteq> None"
proof -
  from F obtain x where x: "x \<in> set vs" "x \<notin> F" by auto
  from F obtain y where y: "y \<in> F" by auto
  with F x have "x \<noteq> y" "y \<in> set vs" by auto
  with x have "2 \<le> card (set vs)"
    by (metis card_le_Suc0_iff_eq List.finite_set not_less_eq_eq numeral_2_eq_2)
  then have l: "2 \<le> length vs" using card_length[of vs] by linarith
  from x obtain i where i: "i < length vs" "vs ! i = x" by (auto simp: in_set_conv_nth)
  from facets_verifiedD[OF v l i(1)] obtain g where
    g: "lookup c (set (facet vs i)) = Some g" by blast
  have sub: "F \<subseteq> set (facet vs i)" using facet_covers[OF i(1) F(1)] i(2) x(2) by simp
  from closed_mapD[OF c g sub F(2)] show ?thesis by auto
qed

lemma insert_keeps_closed:
  assumes c: "closed_map (lookup c)" and v: "facets_verified c vs f"
  shows "closed_map (lookup (insert_simplex c vs f))"
proof -
  let ?m = "lookup c" and ?S = "set vs"
  have pn: "?m F \<noteq> None" if "F \<subseteq> ?S" "F \<noteq> {}" "F \<noteq> ?S" for F
    using proper_faces_present[OF v c that] .
  show ?thesis
  proof (cases "?m ?S")
    case None
    then have e: "lookup (insert_simplex c vs f) = ?m(?S \<mapsto> f)"
      by (simp add: lookup_insert_simplex)
    show ?thesis unfolding e by (rule closed_map_new[OF c]) (rule pn)
  next
    case (Some y)
    show ?thesis
    proof (cases "keeps_lower c")
      case False
      with Some have "lookup (insert_simplex c vs f) = ?m" by (simp add: lookup_insert_simplex)
      with c show ?thesis by simp
    next
      case True
      with Some have e: "lookup (insert_simplex c vs f) = ?m(?S \<mapsto> min y f)"
        by (simp add: lookup_insert_simplex)
      show ?thesis unfolding e by (rule closed_map_new[OF c]) (rule pn)
    qed
  qed
qed

lemma replay_closed:
  assumes "replay sc cs = Some sc'" and "closed_map (lookup sc)"
  shows "closed_map (lookup sc')"
  using replay_invariant[where I = closed_map, OF assms] insert_keeps_closed by blast

lemma create_complex_calls:
  assumes "create_complex wc sc a lm = Inr (True, sc')"
  shows "\<exists>k aws sc2 cs.
           main_loop 1 lm a (nearest wc) (seed_vertices (nbL wc) sc) = (k, aws, sc2)
         \<and> sc' = set_dimension sc2 (k - 1) \<and> 1 \<le> k \<and> (aws = [] \<or> lm < k)
         \<and> replay (seed_vertices (nbL wc) sc) cs = Some sc2
         \<and> (\<forall>c \<in> set cs. \<exists>aw \<in> set (nearest wc). \<exists>j. 1 \<le> j \<and> j < k
                \<and> call_ok [] (map fst (ranking aw)) j c)
         \<and> replay sc (map (\<lambda>i. Insert [i] 0) [0..<nbL wc] @ cs @ [Set_dimension (k - 1)]) = Some sc'"
proof -
  let ?s = "seed_vertices (nbL wc) sc"
  from main_loop_trace[of 1 lm a "nearest wc" ?s] obtain k aws sc2 cs where
    m: "main_loop 1 lm a (nearest wc) ?s = (k, aws, sc2)" "1 \<le> k" "aws = [] \<or> lm < k"
       "replay ?s cs = Some sc2"
       "\<forall>c \<in> set cs. \<exists>aw \<in> set (nearest wc). \<exists>j. 1 \<le> j \<and> j < k
           \<and> call_ok [] (map fst (ranking aw)) j c" by blast
  have e: "sc' = set_dimension sc2 (k - 1)"
    using create_complex_success[OF assms] m(1) by simp
  have "replay sc2 [Set_dimension (k - 1)] = Some sc'" using e by simp
  from replay_trans[OF replay_trans[OF seed_vertices_replay m(4)] this]
  have "replay sc (map (\<lambda>i. Insert [i] 0) [0..<nbL wc] @ cs @ [Set_dimension (k - 1)]) = Some sc'"
    by simp
  with m e show ?thesis by blast
qed

lemma create_complex_replay:
  assumes "create_complex wc sc a lm = Inr (ok, sc')"
  shows "\<exists>cs. replay sc cs = Some sc'"
proof (cases ok)
  case True
  with assms have "create_complex wc sc a lm = Inr (True, sc')" by simp
  from create_complex_calls[OF this] show ?thesis by blast
next
  case False
  with assms have "create_complex wc sc a lm = Inr (False, sc')" by simp
  from create_complex_failure[OF this] have "sc' = sc" by simp
  then have "replay sc [] = Some sc'" by simp
  then show ?thesis by blast
qed

subsection \<open>Flags, windows and sublists\<close>

lemma add_all_faces_of_dimension_calls:
  "\<exists>cs. calls (snd (snd (add_all_faces_of_dimension pe dm a nr it s sc))) = calls sc @ cs
        \<and> (fst (add_all_faces_of_dimension pe dm a nr it s sc) \<longleftrightarrow> (\<exists>c \<in> set cs. is_insert c))"
proof -
  from add_all_faces_of_dimension_effect[of s it dm sc pe a nr] obtain cs where
    "replay sc cs = Some (snd (snd (add_all_faces_of_dimension pe dm a nr it s sc)))"
    "fst (add_all_faces_of_dimension pe dm a nr it s sc) \<longleftrightarrow> (\<exists>c \<in> set cs. is_insert c)"
    unfolding effect_def by auto
  with replay_calls show ?thesis by blast
qed

lemma in_window_iff:
  "in_window pe a nr it \<longleftrightarrow> (\<exists>v d rest. it = (v, d) # rest \<and> le_norelax (d - a) nr)"
proof (cases it)
  case Nil
  then show ?thesis by simp
next
  case (Cons p rest)
  obtain v d where "p = (v, d)" by (cases p)
  with Cons show ?thesis by simp
qed

lemma subseq_sorted_wrt: "subseq xs ys \<Longrightarrow> sorted_wrt P ys \<Longrightarrow> sorted_wrt P xs"
proof (induction rule: list_emb.induct)
  case (list_emb_Nil ys)
  show ?case by simp
next
  case (list_emb_Cons xs ys y)
  then show ?case by simp
next
  case (list_emb_Cons2 x y xs ys)
  then have "x = y" by simp
  have "P x z" if "z \<in> set xs" for z
  proof -
    from list_emb_set[OF list_emb_Cons2(2) that] obtain w where "w \<in> set ys" "z = w" by blast
    with list_emb_Cons2(4) \<open>x = y\<close> show ?thesis by simp
  qed
  with list_emb_Cons2 show ?case by simp
qed

lemma subseq_distinct: "subseq xs ys \<Longrightarrow> distinct ys \<Longrightarrow> distinct xs"
  using subseqs_distinctD[of xs ys] by simp

lemma add_single_candidate:
  "add_all_faces_of_dimension pe 1 a Infinity [(v, d)] [] sc = (False, [], log_find sc [v])"
  by (simp add: add_all_faces_of_dimension_Cons dim_pos_loop_Cons Let_def
      add_all_faces_of_dimension_Nil dim_pos_loop_Nil)

lemma dimension_pass_single_candidates:
  assumes "\<forall>aw \<in> set aws. \<exists>d. ranking aw = [(v, d)]"
  shows "fst (dimension_pass 1 a aws sc) = []
         \<and> entries (snd (dimension_pass 1 a aws sc)) = entries sc"
  using assms
proof (induction aws arbitrary: sc)
  case Nil
  show ?case by simp
next
  case (Cons aw aws)
  then obtain d where d: "ranking aw = [(v, d)]" by auto
  from Cons have "fst (dimension_pass 1 a aws (log_find sc [v])) = []
         \<and> entries (snd (dimension_pass 1 a aws (log_find sc [v]))) = entries (log_find sc [v])"
    by simp
  then show ?case by (simp add: dimension_pass_Cons d add_single_candidate Let_def)
qed

lemma seed_vertices_entries_one:
  "entries sc = [] \<Longrightarrow> entries (seed_vertices 1 sc) = [({0}, 0)]"
  by (simp add: seed_vertices_def insert_simplex_def lookup_def)

lemma entries_set_dimension [simp]: "entries (set_dimension sc d) = entries sc"
  by (simp add: set_dimension_def)

lemma entry_is_stored: "e \<in> set (entries sc) \<Longrightarrow> lookup sc (fst e) \<noteq> None"
  unfolding lookup_present by simp

subsection \<open>Two runs that differ in the relaxation\<close>

lemma ex_two_strict_run: "create_complex ex_two ex_empty_lowering 0 1 = Inr (True, ex_two_strict)"
  by code_simp

lemma ex_two_relaxed_run: "create_complex ex_two ex_empty_lowering 2 1 = Inr (True, ex_two_relaxed)"
  by code_simp

lemma contained_in_iff:
  "contained_in sc1 sc2 \<longleftrightarrow> (\<forall>S. lookup sc1 S \<noteq> None \<longrightarrow> lookup sc2 S \<noteq> None)"
proof
  assume c: "contained_in sc1 sc2"
  show "\<forall>S. lookup sc1 S \<noteq> None \<longrightarrow> lookup sc2 S \<noteq> None"
  proof (intro allI impI)
    fix S assume "lookup sc1 S \<noteq> None"
    then obtain e where "e \<in> set (entries sc1)" "fst e = S" unfolding lookup_present by auto
    with c show "lookup sc2 S \<noteq> None" unfolding contained_in_def list_all_iff by blast
  qed
next
  assume a: "\<forall>S. lookup sc1 S \<noteq> None \<longrightarrow> lookup sc2 S \<noteq> None"
  show "contained_in sc1 sc2" unfolding contained_in_def list_all_iff
  proof
    fix e assume "e \<in> set (entries sc1)"
    then have "lookup sc1 (fst e) \<noteq> None" by (rule entry_is_stored)
    with a show "lookup sc2 (fst e) \<noteq> None" by blast
  qed
qed

lemma contained_in_refl: "contained_in sc sc"
  by (simp add: contained_in_iff)

lemma contained_in_trans: "contained_in a b \<Longrightarrow> contained_in b c \<Longrightarrow> contained_in a c"
  by (simp add: contained_in_iff)

lemma contained_in_lookup_eq:
  "lookup a' = lookup a \<Longrightarrow> lookup b' = lookup b \<Longrightarrow> contained_in a b \<Longrightarrow> contained_in a' b'"
  by (simp add: contained_in_iff)

lemma replay_contained:
  assumes "replay sc cs = Some sc'"
  shows "contained_in sc sc'"
  unfolding contained_in_iff
proof (intro allI impI)
  fix S assume "lookup sc S \<noteq> None"
  from replay_present[OF assms this] show "lookup sc' S \<noteq> None" .
qed

lemma contained_in_insert:
  assumes "contained_in a b"
  shows "contained_in (insert_simplex a vs f) (insert_simplex b vs g)"
  unfolding contained_in_iff
proof (intro allI impI)
  fix S assume a: "lookup (insert_simplex a vs f) S \<noteq> None"
  show "lookup (insert_simplex b vs g) S \<noteq> None"
  proof (cases "S = set vs")
    case True
    then show ?thesis by (simp add: lookup_insert_simplex_same)
  next
    case False
    with a have "lookup a S \<noteq> None" by (simp add: lookup_insert_simplex_other)
    with assms have "lookup b S \<noteq> None" unfolding contained_in_iff by blast
    then show ?thesis by (rule lookup_insert_simplex_present)
  qed
qed

lemma effect_grows:
  assumes "effect s ids dm w sc r"
  shows "(w \<longrightarrow> fst r) \<and> contained_in sc (snd (snd r))"
proof -
  from assms obtain cs where "replay sc cs = Some (snd (snd r))"
    "fst r \<longleftrightarrow> w \<or> (\<exists>c \<in> set cs. is_insert c)" unfolding effect_def by blast
  with replay_contained show ?thesis by blast
qed

lemma sim_stop:
  assumes "w1 \<longrightarrow> w2" and "contained_in sc1 sc2" and "effect s ids dm w2 sc2 r2"
  shows "sim (w1, s1, sc1) r2"
  using assms effect_grows[OF assms(3)] contained_in_trans unfolding sim_def by auto

lemma le_norelax_mono: "x \<le> y \<Longrightarrow> le_norelax y nr \<Longrightarrow> le_norelax x nr"
  by (cases nr) auto

lemma all_faces_in_ok:
  "fst (all_faces_in vs fv sc) \<longleftrightarrow> (\<forall>j<length vs. lookup sc (set (facet vs j)) \<noteq> None)"
  unfolding all_faces_in_def all_faces_in_from_ok by simp

lemma all_faces_in_lookup: "lookup (snd (snd (all_faces_in vs fv sc))) = lookup sc"
  unfolding all_faces_in_def by (rule all_faces_in_from_lookup)

lemma dim_zero_loop_sim:
  assumes "a1 \<le> a2"
  shows "(w1 \<longrightarrow> w2) \<Longrightarrow> contained_in sc1 sc2 \<Longrightarrow>
         sim (dim_zero_loop pe a1 nr w1 it s sc1) (dim_zero_loop pe a2 nr w2 it s sc2)"
proof (induction it arbitrary: nr w1 w2 sc1 sc2)
  case Nil
  then show ?case by (simp add: dim_zero_loop_Nil sim_def)
next
  case (Cons p it)
  obtain v d where p: "p = (v, d)" by (cases p)
  have e2: "effect s (map fst (p # it)) 0 w2 sc2 (dim_zero_loop pe a2 nr w2 (p # it) s sc2)"
    by (rule dim_zero_loop_effect)
  show ?case
  proof (cases "le_norelax (d - a1) nr")
    case False
    then have "dim_zero_loop pe a1 nr w1 (p # it) s sc1 = (w1, s, sc1)"
      by (simp add: p dim_zero_loop_Cons)
    then show ?thesis using sim_stop[OF Cons.prems e2] by simp
  next
    case True
    then have g2: "le_norelax (d - a2) nr" using assms le_norelax_mono[of "d - a2" "d - a1"] by simp
    let ?r1 = "all_faces_in (s @ [v]) (excess d nr) sc1"
    let ?r2 = "all_faces_in (s @ [v]) (excess d nr) sc2"
    let ?nr = "if lt_norelax d nr then Finite d else nr"
    let ?c1 = "if fst ?r1 then insert_simplex (snd (snd ?r1)) (s @ [v]) (fst (snd ?r1)) else snd (snd ?r1)"
    let ?c2 = "if fst ?r2 then insert_simplex (snd (snd ?r2)) (s @ [v]) (fst (snd ?r2)) else snd (snd ?r2)"
    have ok: "fst ?r1 \<longrightarrow> fst ?r2"
      using Cons.prems(2) unfolding all_faces_in_ok contained_in_iff by blast
    have base: "contained_in (snd (snd ?r1)) (snd (snd ?r2))"
      using Cons.prems(2) by (rule contained_in_lookup_eq[OF all_faces_in_lookup all_faces_in_lookup])
    have c: "contained_in ?c1 ?c2"
    proof (cases "fst ?r1")
      case True
      with ok show ?thesis using contained_in_insert[OF base] by simp
    next
      case r1: False
      show ?thesis
      proof (cases "fst ?r2")
        case True
        have "replay (snd (snd ?r2)) [Insert (s @ [v]) (fst (snd ?r2))] = Some ?c2"
          using True all_faces_in_verified[OF True] by simp
        from contained_in_trans[OF base replay_contained[OF this]] r1 show ?thesis by simp
      next
        case False
        with r1 base show ?thesis by simp
      qed
    qed
    have "sim (dim_zero_loop pe a1 ?nr (fst ?r1 \<or> w1) it s ?c1)
              (dim_zero_loop pe a2 ?nr (fst ?r2 \<or> w2) it s ?c2)"
      using ok Cons.prems(1) c by (intro Cons.IH) auto
    then show ?thesis using True g2 by (simp add: p dim_zero_loop_Cons Let_def)
  qed
qed

lemma add_sim_both:
  assumes "a1 \<le> a2"
  shows "(contained_in sc1 sc2 \<longrightarrow>
           sim (add_all_faces_of_dimension pe dm a1 nr it s sc1)
               (add_all_faces_of_dimension pe dm a2 nr it s sc2))
       \<and> ((w1 \<longrightarrow> w2) \<and> contained_in sc1 sc2 \<longrightarrow>
           sim (dim_pos_loop pe dm a1 nr w1 it s sc1) (dim_pos_loop pe dm a2 nr w2 it s sc2))"
proof (induction it arbitrary: dm nr w1 w2 s sc1 sc2)
  case Nil
  show ?case by (simp add: add_all_faces_of_dimension_Nil dim_pos_loop_Nil sim_def)
next
  case (Cons p it)
  obtain v d where p: "p = (v, d)" by (cases p)
  have IHadd: "sim (add_all_faces_of_dimension pe dm a1 nr it s sc1)
                   (add_all_faces_of_dimension pe dm a2 nr it s sc2)"
    if "contained_in sc1 sc2" for dm nr s sc1 sc2
    using Cons.IH that by blast
  have IHloop: "sim (dim_pos_loop pe dm a1 nr w1 it s sc1) (dim_pos_loop pe dm a2 nr w2 it s sc2)"
    if "w1 \<longrightarrow> w2" "contained_in sc1 sc2" for dm nr w1 w2 s sc1 sc2
    using Cons.IH that by blast
  have loop: "sim (dim_pos_loop pe dm a1 nr w1 (p # it) s sc1)
                  (dim_pos_loop pe dm a2 nr w2 (p # it) s sc2)"
    if w: "w1 \<longrightarrow> w2" and c: "contained_in sc1 sc2" for dm nr w1 w2 s sc1 sc2
  proof (cases "le_norelax (d - a1) nr")
    case False
    then have "dim_pos_loop pe dm a1 nr w1 (p # it) s sc1 = (w1, s, sc1)"
      by (simp add: p dim_pos_loop_Cons)
    moreover have "effect s (map fst (p # it)) dm w2 sc2 (dim_pos_loop pe dm a2 nr w2 (p # it) s sc2)"
      using add_effect_both by blast
    ultimately show ?thesis using sim_stop[OF w c] by simp
  next
    case True
    then have g2: "le_norelax (d - a2) nr" using assms le_norelax_mono[of "d - a2" "d - a1"] by simp
    let ?f1 = "lookup sc1 (set (s @ [v])) \<noteq> None" and ?f2 = "lookup sc2 (set (s @ [v])) \<noteq> None"
    let ?l1 = "log_find sc1 (s @ [v])" and ?l2 = "log_find sc2 (s @ [v])"
    let ?r1 = "if ?f1 then add_all_faces_of_dimension pe (dm - 1) a1 nr it (s @ [v]) ?l1
               else (False, s @ [v], ?l1)"
    let ?r2 = "if ?f2 then add_all_faces_of_dimension pe (dm - 1) a2 nr it (s @ [v]) ?l2
               else (False, s @ [v], ?l2)"
    let ?nr = "if le_norelax d nr then Finite d else nr"
    let ?q1 = "add_all_faces_of_dimension pe dm a1 ?nr it s (snd (snd ?r1))"
    let ?q2 = "add_all_faces_of_dimension pe dm a2 ?nr it s (snd (snd ?r2))"
    have f: "?f1 \<longrightarrow> ?f2" using c unfolding contained_in_iff by blast
    have cl: "contained_in ?l1 ?l2"
      using c by (rule contained_in_lookup_eq[OF lookup_log_find lookup_log_find])
    have s1: "sim ?r1 ?r2"
    proof (cases ?f1)
      case True
      with f show ?thesis using IHadd[OF cl] by simp
    next
      case f1: False
      show ?thesis
      proof (cases ?f2)
        case True
        have "effect (s @ [v]) (map fst it) (dm - 1) False ?l2
                (add_all_faces_of_dimension pe (dm - 1) a2 nr it (s @ [v]) ?l2)"
          by (rule add_all_faces_of_dimension_effect)
        from sim_stop[OF _ cl this, of False "s @ [v]"] f1 True show ?thesis by simp
      next
        case False
        with f1 cl show ?thesis by (simp add: sim_def)
      qed
    qed
    then have s2: "sim ?q1 ?q2" unfolding sim_def using IHadd[unfolded sim_def] by blast
    have "sim (dim_pos_loop pe dm a1 ?nr (fst ?q1 \<or> fst ?r1 \<or> w1) it s (snd (snd ?q1)))
              (dim_pos_loop pe dm a2 ?nr (fst ?q2 \<or> fst ?r2 \<or> w2) it s (snd (snd ?q2)))"
      using s1 s2 w unfolding sim_def by (intro IHloop[unfolded sim_def]) auto
    then show ?thesis using True g2 by (simp add: p dim_pos_loop_Cons Let_def)
  qed
  have add: "sim (add_all_faces_of_dimension pe dm a1 nr (p # it) s sc1)
                 (add_all_faces_of_dimension pe dm a2 nr (p # it) s sc2)"
    if c: "contained_in sc1 sc2"
    using loop[of False False sc1 sc2 dm nr s] dim_zero_loop_sim[OF assms, of False False sc1 sc2] c
    by (simp add: add_all_faces_of_dimension_Cons sim_def)
  from loop add show ?case by blast
qed

lemma add_all_faces_of_dimension_sim:
  "a1 \<le> a2 \<Longrightarrow> contained_in sc1 sc2 \<Longrightarrow>
   sim (add_all_faces_of_dimension pe dm a1 nr it s sc1)
       (add_all_faces_of_dimension pe dm a2 nr it s sc2)"
  using add_sim_both by blast

lemma dimension_pass_contained: "contained_in sc (snd (dimension_pass k a aws sc))"
  using dimension_pass_trace[of sc k a aws] replay_contained by blast

lemma dimension_pass_sim:
  assumes "a1 \<le> a2"
  shows "subseq aws1 aws2 \<Longrightarrow> contained_in sc1 sc2 \<Longrightarrow>
         subseq (fst (dimension_pass k a1 aws1 sc1)) (fst (dimension_pass k a2 aws2 sc2))
         \<and> contained_in (snd (dimension_pass k a1 aws1 sc1)) (snd (dimension_pass k a2 aws2 sc2))"
proof (induction aws2 arbitrary: aws1 sc1 sc2)
  case Nil
  from Nil(1) have "aws1 = []" by (rule list_emb_Nil2)
  with Nil(2) show ?case by simp
next
  case (Cons aw2 aws2)
  let ?r2 = "add_all_faces_of_dimension (past_end aw2) k a2 Infinity (ranking aw2) [] sc2"
  have g2: "contained_in sc2 (snd (snd ?r2))"
    using effect_grows[OF add_all_faces_of_dimension_effect] by blast
  show ?case
  proof (cases aws1)
    case Nil
    have "contained_in sc1 (snd (dimension_pass k a2 (aw2 # aws2) sc2))"
      using contained_in_trans[OF Cons.prems(2) dimension_pass_contained] .
    with Nil show ?thesis by simp
  next
    case (Cons aw1 rest1)
    show ?thesis
    proof (cases "aw1 = aw2")
      case True
      with Cons Cons.prems(1) have sub: "subseq rest1 aws2" by simp
      let ?r1 = "add_all_faces_of_dimension (past_end aw2) k a1 Infinity (ranking aw2) [] sc1"
      have s: "sim ?r1 ?r2"
        using add_all_faces_of_dimension_sim[OF assms Cons.prems(2)] .
      then have c: "contained_in (snd (snd ?r1)) (snd (snd ?r2))" and f: "fst ?r1 \<longrightarrow> fst ?r2"
        unfolding sim_def by simp_all
      from Cons.IH[OF sub c]
      have "subseq (fst (dimension_pass k a1 rest1 (snd (snd ?r1))))
                   (fst (dimension_pass k a2 aws2 (snd (snd ?r2))))"
        "contained_in (snd (dimension_pass k a1 rest1 (snd (snd ?r1))))
                      (snd (dimension_pass k a2 aws2 (snd (snd ?r2))))" by simp_all
      then show ?thesis using f True Cons
        by (auto simp: dimension_pass_Cons Let_def)
    next
      case False
      with Cons Cons.prems(1) have sub: "subseq aws1 aws2" by simp
      from Cons.IH[OF sub contained_in_trans[OF Cons.prems(2) g2]]
      have "subseq (fst (dimension_pass k a1 aws1 sc1))
                   (fst (dimension_pass k a2 aws2 (snd (snd ?r2))))"
        "contained_in (snd (dimension_pass k a1 aws1 sc1))
                      (snd (dimension_pass k a2 aws2 (snd (snd ?r2))))" by simp_all
      then show ?thesis by (auto simp: dimension_pass_Cons Let_def)
    qed
  qed
qed

lemma main_loop_contained: "contained_in sc (snd (snd (main_loop k lm a aws sc)))"
proof -
  from main_loop_trace[of k lm a aws sc] obtain cs where
    "replay sc cs = Some (snd (snd (main_loop k lm a aws sc)))" by auto
  then show ?thesis by (rule replay_contained)
qed

lemma main_loop_sim:
  assumes "a1 \<le> a2"
  shows "subseq aws1 aws2 \<Longrightarrow> contained_in sc1 sc2 \<Longrightarrow>
         contained_in (snd (snd (main_loop k lm a1 aws1 sc1))) (snd (snd (main_loop k lm a2 aws2 sc2)))"
proof (induction "nat (lm + 1 - k)" arbitrary: k aws1 aws2 sc1 sc2)
  case 0
  then have "main_loop k lm a1 aws1 sc1 = (k, aws1, sc1)" by (subst main_loop_step) simp
  then show ?case using contained_in_trans[OF 0(3) main_loop_contained] by simp
next
  case (Suc n)
  show ?case
  proof (cases "aws1 \<noteq> [] \<and> k \<le> lm")
    case False
    then have "main_loop k lm a1 aws1 sc1 = (k, aws1, sc1)" by (subst main_loop_step) auto
    then show ?thesis using contained_in_trans[OF Suc.prems(2) main_loop_contained] by simp
  next
    case True
    with Suc.prems(1) have ne: "aws2 \<noteq> []" by auto
    let ?p1 = "dimension_pass k a1 aws1 sc1" and ?p2 = "dimension_pass k a2 aws2 sc2"
    have e1: "main_loop k lm a1 aws1 sc1 = main_loop (k + 1) lm a1 (fst ?p1) (snd ?p1)"
      using True by (subst main_loop_step) simp
    have e2: "main_loop k lm a2 aws2 sc2 = main_loop (k + 1) lm a2 (fst ?p2) (snd ?p2)"
      using True ne by (subst main_loop_step) simp
    have n: "n = nat (lm + 1 - (k + 1))" using Suc.hyps(2) by simp
    from dimension_pass_sim[OF assms Suc.prems] have "subseq (fst ?p1) (fst ?p2)"
      "contained_in (snd ?p1) (snd ?p2)" by simp_all
    from Suc.hyps(1)[OF n this] show ?thesis unfolding e1 e2 .
  qed
qed

lemma create_complex_run:
  assumes "num_vertices sc = 0" "0 \<le> a" "0 \<le> lm" "nbL wc < 2 ^ 32" "nearest wc \<noteq> []"
  shows "create_complex wc sc a lm = Inr (True, set_dimension
           (snd (snd (main_loop 1 lm a (nearest wc) (seed_vertices (nbL wc) sc))))
           (fst (main_loop 1 lm a (nearest wc) (seed_vertices (nbL wc) sc)) - 1))"
  using assms unfolding create_complex_def Let_def front_def
  by (auto split: list.splits prod.splits)

subsection \<open>What a loop does with its window\<close>

lemma tighten_eq:
  "(if lt_norelax d nr then Finite d else nr) = (if le_norelax d nr then Finite d else nr)"
  by (cases nr) auto

lemma window_prefix: "prefix (window a nr it) it"
proof (induction it arbitrary: nr)
  case Nil
  show ?case by simp
next
  case (Cons p it)
  obtain v d where "p = (v, d)" by (cases p)
  then show ?case using Cons.IH by simp
qed

lemma replay_new_calls:
  "replay sc cs = Some sc' \<Longrightarrow> new_calls sc sc' = cs \<and> calls sc' = calls sc @ cs"
  using replay_calls[of sc cs sc'] by (simp add: new_calls_def)

lemma dim_zero_loop_window:
  "dim_zero_loop pe a nr wba it s sc = dim_zero_loop pe a nr wba (window a nr it) s sc"
proof (induction it arbitrary: nr wba sc)
  case Nil
  show ?case by simp
next
  case (Cons p it)
  obtain v d where p: "p = (v, d)" by (cases p)
  show ?case
  proof (cases "le_norelax (d - a) nr")
    case False
    then show ?thesis by (simp add: p dim_zero_loop_Cons dim_zero_loop_Nil)
  next
    case True
    let ?r = "all_faces_in (s @ [v]) (excess d nr) sc"
    let ?nr = "if le_norelax d nr then Finite d else nr"
    let ?sc2 = "if fst ?r then insert_simplex (snd (snd ?r)) (s @ [v]) (fst (snd ?r)) else snd (snd ?r)"
    have "dim_zero_loop pe a nr wba (p # it) s sc = dim_zero_loop pe a ?nr (fst ?r \<or> wba) it s ?sc2"
      using True by (simp add: p dim_zero_loop_Cons Let_def tighten_eq)
    also have "\<dots> = dim_zero_loop pe a ?nr (fst ?r \<or> wba) (window a ?nr it) s ?sc2"
      by (rule Cons.IH)
    also have "\<dots> = dim_zero_loop pe a nr wba ((v, d) # window a ?nr it) s sc"
      using True by (simp add: dim_zero_loop_Cons Let_def tighten_eq)
    finally show ?thesis using True by (simp add: p)
  qed
qed

lemma all_faces_in_first:
  assumes "vs \<noteq> []"
  shows "\<exists>cs. replay sc (Find (facet vs 0) # cs) = Some (snd (snd (all_faces_in vs fv sc)))
              \<and> (\<forall>c \<in> set cs. \<not> is_insert c)"
proof (cases "lookup sc (set (facet vs 0))")
  case None
  then have "all_faces_in vs fv sc = (False, fv, log_find sc (facet vs 0))"
    using assms unfolding all_faces_in_def by (subst all_faces_in_from_step) simp
  then have "replay sc (Find (facet vs 0) # []) = Some (snd (snd (all_faces_in vs fv sc)))"
    by simp
  then show ?thesis by (intro exI[of _ "[]"]) simp
next
  case (Some f)
  then have e: "all_faces_in vs fv sc
                  = all_faces_in_from vs (Suc 0) (max fv f) (log_find sc (facet vs 0))"
    using assms unfolding all_faces_in_def by (subst all_faces_in_from_step) simp
  from all_faces_in_from_replay[of "log_find sc (facet vs 0)" vs "Suc 0" "max fv f"]
  obtain cs where cs: "replay (log_find sc (facet vs 0)) cs
                         = Some (snd (snd (all_faces_in_from vs (Suc 0) (max fv f)
                                             (log_find sc (facet vs 0)))))"
    "\<forall>c \<in> set cs. \<exists>j<length vs. c = Find (facet vs j)" by blast
  from cs(2) have "\<forall>c \<in> set cs. \<not> is_insert c" by auto
  with cs(1) show ?thesis unfolding e by (intro exI[of _ cs]) simp
qed

lemma dim_zero_loop_trace:
  "\<exists>cs. replay sc cs = Some (snd (snd (dim_zero_loop pe a nr wba it s sc)))
      \<and> subseq (map vertex_list (filter is_insert cs)) (map (\<lambda>p. s @ [fst p]) (window a nr it))
      \<and> (\<forall>p \<in> set (window a nr it). Find (facet (s @ [fst p]) 0) \<in> set cs)
      \<and> (\<forall>p \<in> set (window a nr it).
            (\<forall>j<length (s @ [fst p]). lookup sc (set (facet (s @ [fst p]) j)) \<noteq> None)
            \<longrightarrow> (\<exists>f. Insert (s @ [fst p]) f \<in> set cs))"
proof (induction it arbitrary: nr wba sc)
  case Nil
  have "replay sc [] = Some (snd (snd (dim_zero_loop pe a nr wba [] s sc)))"
    by (simp add: dim_zero_loop_Nil)
  then show ?case by (intro exI[of _ "[]"]) simp
next
  case (Cons p it)
  obtain v d where p: "p = (v, d)" by (cases p)
  show ?case
  proof (cases "le_norelax (d - a) nr")
    case False
    then have "replay sc [] = Some (snd (snd (dim_zero_loop pe a nr wba (p # it) s sc)))"
      by (simp add: p dim_zero_loop_Cons)
    then show ?thesis using False by (intro exI[of _ "[]"]) (simp add: p)
  next
    case True
    let ?r = "all_faces_in (s @ [v]) (excess d nr) sc"
    define nr1 where "nr1 = (if le_norelax d nr then Finite d else nr)"
    let ?ins = "if fst ?r then [Insert (s @ [v]) (fst (snd ?r))] else []"
    let ?sc2 = "if fst ?r then insert_simplex (snd (snd ?r)) (s @ [v]) (fst (snd ?r)) else snd (snd ?r)"
    let ?Z = "dim_zero_loop pe a nr1 (fst ?r \<or> wba) it s ?sc2"
    have w: "window a nr (p # it) = (v, d) # window a nr1 it"
      using True by (simp add: p nr1_def)
    have e: "dim_zero_loop pe a nr wba (p # it) s sc = ?Z"
      using True by (simp add: p dim_zero_loop_Cons Let_def tighten_eq nr1_def)
    from all_faces_in_first[of "s @ [v]" sc "excess d nr"] obtain cf where
      cf: "replay sc (Find (facet (s @ [v]) 0) # cf) = Some (snd (snd ?r))"
          "\<forall>c \<in> set cf. \<not> is_insert c" by auto
    have ri: "replay (snd (snd ?r)) ?ins = Some ?sc2"
      using all_faces_in_verified[of "s @ [v]" "excess d nr" sc] by simp
    from Cons.IH[of ?sc2 nr1 "fst ?r \<or> wba"] obtain cr where
      cr: "replay ?sc2 cr = Some (snd (snd ?Z))"
          "subseq (map vertex_list (filter is_insert cr))
                  (map (\<lambda>p. s @ [fst p]) (window a nr1 it))"
          "\<forall>p \<in> set (window a nr1 it). Find (facet (s @ [fst p]) 0) \<in> set cr"
          "\<forall>p \<in> set (window a nr1 it).
              (\<forall>j<length (s @ [fst p]). lookup ?sc2 (set (facet (s @ [fst p]) j)) \<noteq> None)
              \<longrightarrow> (\<exists>f. Insert (s @ [fst p]) f \<in> set cr)" by blast
    let ?cs = "(Find (facet (s @ [v]) 0) # cf) @ ?ins @ cr"
    have 1: "replay sc ?cs = Some (snd (snd ?Z))"
      using replay_trans[OF cf(1) replay_trans[OF ri cr(1)]] .
    have fi: "filter is_insert cf = []" using cf(2) by (simp add: filter_empty_conv)
    have 2: "subseq (map vertex_list (filter is_insert ?cs))
                    (map (\<lambda>p. s @ [fst p]) ((v, d) # window a nr1 it))"
      using cr(2) fi by (cases "fst ?r") (simp_all add: list_emb_Cons)
    have 3: "Find (facet (s @ [fst q]) 0) \<in> set ?cs" if "q \<in> set ((v, d) # window a nr1 it)" for q
      using that cr(3) by auto
    have pres: "lookup ?sc2 S \<noteq> None" if "lookup sc S \<noteq> None" for S
    proof -
      from that have "lookup (snd (snd ?r)) S \<noteq> None" by (simp add: all_faces_in_lookup)
      from this lookup_insert_simplex_present[OF this] show ?thesis by (cases "fst ?r") simp_all
    qed
    have 4: "\<exists>f. Insert (s @ [fst q]) f \<in> set ?cs"
      if q: "q \<in> set ((v, d) # window a nr1 it)"
        and l: "\<forall>j<length (s @ [fst q]). lookup sc (set (facet (s @ [fst q]) j)) \<noteq> None" for q
    proof (cases "q = (v, d)")
      case True
      with l have "fst ?r" unfolding all_faces_in_ok by simp
      then show ?thesis using True by auto
    next
      case False
      with q have "q \<in> set (window a nr1 it)" by simp
      moreover from l pres
      have "\<forall>j<length (s @ [fst q]). lookup ?sc2 (set (facet (s @ [fst q]) j)) \<noteq> None" by blast
      ultimately obtain f where "Insert (s @ [fst q]) f \<in> set cr" using cr(4) by blast
      then show ?thesis by auto
    qed
    show ?thesis unfolding e w using 1 2 3 4 by (intro exI[of _ ?cs] conjI ballI impI) blast+
  qed
qed

lemma inserts_extend_Nil [simp]: "inserts_extend s w []"
  by (simp add: inserts_extend_def)

lemma inserts_extend_append [simp]:
  "inserts_extend s w (cs1 @ cs2) \<longleftrightarrow> inserts_extend s w cs1 \<and> inserts_extend s w cs2"
  unfolding inserts_extend_def by auto

lemma inserts_extend_Find [simp]:
  "inserts_extend s w (Find vs # cs) \<longleftrightarrow> inserts_extend s w cs"
  unfolding inserts_extend_def by auto

lemma inserts_extend_mono:
  "inserts_extend s w cs \<Longrightarrow> set w \<subseteq> set w' \<Longrightarrow> inserts_extend s w' cs"
  unfolding inserts_extend_def extends_by_def by blast

lemma inserts_extend_push:
  assumes "inserts_extend (s @ [v]) w' cs" and "p \<in> set w" and "fst p = v"
  shows "inserts_extend s w cs"
  unfolding inserts_extend_def extends_by_def
proof (intro ballI impI)
  fix c assume c: "c \<in> set cs" "is_insert c"
  with assms(1) obtain q where "q \<in> set w'"
    "take (Suc (length (s @ [v]))) (vertex_list c) = (s @ [v]) @ [fst q]"
    unfolding inserts_extend_def extends_by_def by blast
  then have "take (Suc (length s)) (take (Suc (Suc (length s))) (vertex_list c))
               = take (Suc (length s)) (s @ [v] @ [fst q])" by simp
  then have "take (Suc (length s)) (vertex_list c) = s @ [v]" by (simp add: min_def)
  with assms(2,3) show "\<exists>p \<in> set w. take (Suc (length s)) (vertex_list c) = s @ [fst p]" by blast
qed

lemma dim_zero_loop_extend:
  "\<exists>cs. replay sc cs = Some (snd (snd (dim_zero_loop pe a nr wba it s sc)))
      \<and> inserts_extend s (window a nr it) cs"
proof -
  from dim_zero_loop_trace[of sc pe a nr wba it s] obtain cs where
    cs: "replay sc cs = Some (snd (snd (dim_zero_loop pe a nr wba it s sc)))"
        "subseq (map vertex_list (filter is_insert cs)) (map (\<lambda>p. s @ [fst p]) (window a nr it))"
    by blast
  have "extends_by s (window a nr it) c" if c: "c \<in> set cs" "is_insert c" for c
  proof -
    from c have "vertex_list c \<in> set (map vertex_list (filter is_insert cs))" by simp
    from list_emb_set[OF cs(2) this] obtain y where
      y: "y \<in> set (map (\<lambda>p. s @ [fst p]) (window a nr it))" "vertex_list c = y" by blast
    then obtain p where "p \<in> set (window a nr it)" "vertex_list c = s @ [fst p]" by auto
    then show ?thesis unfolding extends_by_def by (intro bexI[of _ p]) simp_all
  qed
  with cs(1) show ?thesis unfolding inserts_extend_def by blast
qed

lemma add_trace_both:
  "(\<exists>cs. replay sc cs = Some (snd (snd (add_all_faces_of_dimension pe dm a nr it s sc)))
        \<and> inserts_extend s (window a nr it) cs)
   \<and> (\<exists>cs. replay sc cs = Some (snd (snd (dim_pos_loop pe dm a nr wba it s sc)))
        \<and> inserts_extend s (window a nr it) cs
        \<and> (\<forall>p \<in> set (window a nr it). Find (s @ [fst p]) \<in> set cs))"
proof (induction it arbitrary: dm nr wba s sc)
  case Nil
  have "replay sc [] = Some sc \<and> inserts_extend s [] []" by simp
  then have "\<exists>cs. replay sc cs = Some sc \<and> inserts_extend s [] cs" by (rule exI)
  then show ?case
    by (simp add: add_all_faces_of_dimension_Nil dim_pos_loop_Nil)
next
  case (Cons p it)
  obtain v d where p: "p = (v, d)" by (cases p)
  have IHadd: "\<exists>cs. replay sc cs = Some (snd (snd (add_all_faces_of_dimension pe dm a nr it s sc)))
        \<and> inserts_extend s (window a nr it) cs" for dm nr s sc
    using Cons.IH by blast
  have IHloop: "\<exists>cs. replay sc cs = Some (snd (snd (dim_pos_loop pe dm a nr wba it s sc)))
        \<and> inserts_extend s (window a nr it) cs
        \<and> (\<forall>p \<in> set (window a nr it). Find (s @ [fst p]) \<in> set cs)" for dm nr wba s sc
    using Cons.IH by blast
  have loop: "\<exists>cs. replay sc cs = Some (snd (snd (dim_pos_loop pe dm a nr wba (p # it) s sc)))
        \<and> inserts_extend s (window a nr (p # it)) cs
        \<and> (\<forall>q \<in> set (window a nr (p # it)). Find (s @ [fst q]) \<in> set cs)" for dm nr wba s sc
  proof (cases "le_norelax (d - a) nr")
    case False
    then have "replay sc [] = Some (snd (snd (dim_pos_loop pe dm a nr wba (p # it) s sc)))"
      by (simp add: p dim_pos_loop_Cons)
    then show ?thesis using False by (intro exI[of _ "[]"]) (simp add: p)
  next
    case True
    define nr1 where "nr1 = (if le_norelax d nr then Finite d else nr)"
    let ?sc1 = "log_find sc (s @ [v])"
    let ?r1 = "if lookup sc (set (s @ [v])) \<noteq> None
               then add_all_faces_of_dimension pe (dm - 1) a nr it (s @ [v]) ?sc1
               else (False, s @ [v], ?sc1)"
    let ?r2 = "add_all_faces_of_dimension pe dm a nr1 it s (snd (snd ?r1))"
    let ?P = "dim_pos_loop pe dm a nr1 (fst ?r2 \<or> fst ?r1 \<or> wba) it s (snd (snd ?r2))"
    let ?w = "(v, d) # window a nr1 it"
    have w: "window a nr (p # it) = ?w" using True by (simp add: p nr1_def)
    have e: "dim_pos_loop pe dm a nr wba (p # it) s sc = ?P"
      using True by (simp add: p dim_pos_loop_Cons Let_def nr1_def)
    have "\<exists>c1. replay ?sc1 c1 = Some (snd (snd ?r1)) \<and> inserts_extend (s @ [v]) (window a nr it) c1"
    proof (cases "lookup sc (set (s @ [v])) \<noteq> None")
      case True
      then show ?thesis using IHadd[of ?sc1 "dm - 1" nr "s @ [v]"] by simp
    next
      case False
      then have "replay ?sc1 [] = Some (snd (snd ?r1))" by simp
      then show ?thesis by (intro exI[of _ "[]"]) simp
    qed
    then obtain c1 where c1: "replay ?sc1 c1 = Some (snd (snd ?r1))"
      "inserts_extend (s @ [v]) (window a nr it) c1" by blast
    have c1w: "inserts_extend s ?w c1"
      by (rule inserts_extend_push[OF c1(2), of "(v, d)"]) simp_all
    from IHadd[of "snd (snd ?r1)" dm nr1 s] obtain c2 where
      c2: "replay (snd (snd ?r1)) c2 = Some (snd (snd ?r2))"
          "inserts_extend s (window a nr1 it) c2" by blast
    have c2w: "inserts_extend s ?w c2" by (rule inserts_extend_mono[OF c2(2)]) auto
    from IHloop[of "snd (snd ?r2)" dm nr1 "fst ?r2 \<or> fst ?r1 \<or> wba" s] obtain c3 where
      c3: "replay (snd (snd ?r2)) c3 = Some (snd (snd ?P))"
          "inserts_extend s (window a nr1 it) c3"
          "\<forall>q \<in> set (window a nr1 it). Find (s @ [fst q]) \<in> set c3" by blast
    have c3w: "inserts_extend s ?w c3" by (rule inserts_extend_mono[OF c3(2)]) auto
    let ?cs = "Find (s @ [v]) # c1 @ c2 @ c3"
    have "replay sc [Find (s @ [v])] = Some ?sc1" by simp
    from replay_trans[OF this replay_trans[OF c1(1) replay_trans[OF c2(1) c3(1)]]]
    have 1: "replay sc ?cs = Some (snd (snd ?P))" by simp
    have 2: "inserts_extend s ?w ?cs" using c1w c2w c3w by simp
    have 3: "\<forall>q \<in> set ?w. Find (s @ [fst q]) \<in> set ?cs" using c3(3) by auto
    show ?thesis unfolding e w using 1 2 3 by (intro exI[of _ ?cs]) blast
  qed
  have add: "\<exists>cs. replay sc cs = Some (snd (snd (add_all_faces_of_dimension pe dm a nr (p # it) s sc)))
        \<and> inserts_extend s (window a nr (p # it)) cs" for dm nr s sc
  proof -
    consider "dm > 0" | "dm = 0" | "dm < 0" by linarith
    then show ?thesis
    proof cases
      case 1
      then show ?thesis using loop[of sc dm nr False s]
        by (simp add: add_all_faces_of_dimension_Cons) blast
    next
      case 2
      then show ?thesis using dim_zero_loop_extend[of sc pe a nr False "p # it" s]
        by (simp add: add_all_faces_of_dimension_Cons)
    next
      case 3
      then have "replay sc [] = Some (snd (snd (add_all_faces_of_dimension pe dm a nr (p # it) s sc)))"
        by (simp add: add_all_faces_of_dimension_Cons)
      then show ?thesis by (intro exI[of _ "[]"]) simp
    qed
  qed
  from loop add show ?case by blast
qed
subsection \<open>Two runs into a complex that keeps the lower value\<close>

lemma not_above_iff:
  "not_above sc1 sc2 \<longleftrightarrow>
     (\<forall>S f. lookup sc1 S = Some f \<longrightarrow> (\<exists>g. lookup sc2 S = Some g \<and> g \<le> f))"
proof
  assume c: "not_above sc1 sc2"
  show "\<forall>S f. lookup sc1 S = Some f \<longrightarrow> (\<exists>g. lookup sc2 S = Some g \<and> g \<le> f)"
  proof (intro allI impI)
    fix S f assume f: "lookup sc1 S = Some f"
    then have "lookup sc1 S \<noteq> None" by simp
    then obtain e where e: "e \<in> set (entries sc1)" "fst e = S" unfolding lookup_present by auto
    with c have "case (lookup sc1 S, lookup sc2 S) of (Some f, Some g) \<Rightarrow> g \<le> f | _ \<Rightarrow> False"
      unfolding not_above_def list_all_iff by blast
    with f show "\<exists>g. lookup sc2 S = Some g \<and> g \<le> f" by (auto split: option.splits)
  qed
next
  assume a: "\<forall>S f. lookup sc1 S = Some f \<longrightarrow> (\<exists>g. lookup sc2 S = Some g \<and> g \<le> f)"
  show "not_above sc1 sc2" unfolding not_above_def list_all_iff
  proof
    fix e assume "e \<in> set (entries sc1)"
    then have "lookup sc1 (fst e) \<noteq> None" by (rule entry_is_stored)
    then obtain f where f: "lookup sc1 (fst e) = Some f" by auto
    with a obtain g where "lookup sc2 (fst e) = Some g" "g \<le> f" by blast
    with f show "case (lookup sc1 (fst e), lookup sc2 (fst e)) of
                   (Some f, Some g) \<Rightarrow> g \<le> f | _ \<Rightarrow> False" by simp
  qed
qed

lemma not_aboveD:
  "not_above sc1 sc2 \<Longrightarrow> lookup sc1 S = Some f \<Longrightarrow> \<exists>g. lookup sc2 S = Some g \<and> g \<le> f"
  unfolding not_above_iff by blast

lemma not_above_refl: "not_above sc sc"
  by (simp add: not_above_iff)

lemma not_above_trans:
  assumes "not_above a b" and "not_above b c"
  shows "not_above a c"
  unfolding not_above_iff
proof (intro allI impI)
  fix S f assume "lookup a S = Some f"
  from not_aboveD[OF assms(1) this] obtain g where g: "lookup b S = Some g" "g \<le> f" by blast
  from not_aboveD[OF assms(2) g(1)] obtain h where "lookup c S = Some h" "h \<le> g" by blast
  with g(2) show "\<exists>g. lookup c S = Some g \<and> g \<le> f" by auto
qed

lemma not_above_lookup_eq:
  "lookup a' = lookup a \<Longrightarrow> lookup b' = lookup b \<Longrightarrow> not_above a b \<Longrightarrow> not_above a' b'"
  by (simp add: not_above_iff)

lemma not_above_contained: "not_above a b \<Longrightarrow> contained_in a b"
  unfolding not_above_iff contained_in_iff by fastforce

lemma replay_not_above:
  assumes "replay sc cs = Some sc'"
  shows "not_above sc sc'"
  unfolding not_above_iff using replay_lowers[OF assms] by blast

lemma not_above_insert:
  assumes ab: "not_above a b" and k: "keeps_lower b" and gf: "g \<le> f"
  shows "not_above (insert_simplex a vs f) (insert_simplex b vs g)"
  unfolding not_above_iff
proof (intro allI impI)
  fix S h assume h: "lookup (insert_simplex a vs f) S = Some h"
  show "\<exists>g'. lookup (insert_simplex b vs g) S = Some g' \<and> g' \<le> h"
  proof (cases "S = set vs")
    case False
    with h have "lookup a S = Some h" by (simp add: lookup_insert_simplex_other)
    from not_aboveD[OF ab this] False show ?thesis by (simp add: lookup_insert_simplex_other)
  next
    case True
    show ?thesis
    proof (cases "lookup a (set vs)")
      case None
      with h True have hf: "h = f" by (simp add: lookup_insert_simplex_same)
      have "lookup (insert_simplex b vs g) (set vs)
              = Some (case lookup b (set vs) of None \<Rightarrow> g | Some o2 \<Rightarrow> min o2 g)"
        using k by (simp add: lookup_insert_simplex_same split: option.splits)
      moreover have "(case lookup b (set vs) of None \<Rightarrow> g | Some o2 \<Rightarrow> min o2 g) \<le> f"
        using gf by (auto split: option.splits)
      ultimately show ?thesis using True hf by simp
    next
      case (Some o1)
      from not_aboveD[OF ab Some] obtain o2 where o2: "lookup b (set vs) = Some o2" "o2 \<le> o1"
        by blast
      from h True Some have "h = (if keeps_lower a then min o1 f else o1)"
        by (simp add: lookup_insert_simplex_same)
      then have "min o2 g \<le> h" using o2(2) gf by auto
      moreover have "lookup (insert_simplex b vs g) (set vs) = Some (min o2 g)"
        using k o2(1) by (simp add: lookup_insert_simplex_same)
      ultimately show ?thesis using True by simp
    qed
  qed
qed

lemma effect_keeps_lower:
  assumes "effect s ids dm w sc r"
  shows "keeps_lower (snd (snd r)) = keeps_lower sc"
proof -
  from assms obtain cs where "replay sc cs = Some (snd (snd r))" unfolding effect_def by blast
  then show ?thesis by (rule replay_keeps_lower)
qed

lemma effect_lowers:
  assumes "effect s ids dm w sc r"
  shows "(w \<longrightarrow> fst r) \<and> not_above sc (snd (snd r))"
proof -
  from assms obtain cs where "replay sc cs = Some (snd (snd r))"
    "fst r \<longleftrightarrow> w \<or> (\<exists>c \<in> set cs. is_insert c)" unfolding effect_def by blast
  with replay_not_above show ?thesis by blast
qed

lemma sim_lower_stop:
  assumes "w1 \<longrightarrow> w2" and "keeps_lower sc2" and "not_above sc1 sc2"
    and "effect s ids dm w2 sc2 r2"
  shows "sim_lower (w1, s1, sc1) r2"
  using assms effect_lowers[OF assms(4)] effect_keeps_lower[OF assms(4)] not_above_trans
  unfolding sim_lower_def by auto

lemma keeps_lower_all_faces_in:
  "keeps_lower (snd (snd (all_faces_in vs fv sc))) = keeps_lower sc"
proof -
  obtain cs where "replay sc cs = Some (snd (snd (all_faces_in vs fv sc)))"
    unfolding all_faces_in_def using all_faces_in_from_replay by blast
  then show ?thesis by (rule replay_keeps_lower)
qed

lemma all_faces_in_value_mono:
  assumes ab: "not_above sc1 sc2" and ok: "fst (all_faces_in vs fv sc1)"
  shows "fst (all_faces_in vs fv sc2)
         \<and> fst (snd (all_faces_in vs fv sc2)) \<le> fst (snd (all_faces_in vs fv sc1))"
proof -
  let ?g1 = "\<lambda>j. the (lookup sc1 (set (facet vs j)))"
  let ?g2 = "\<lambda>j. the (lookup sc2 (set (facet vs j)))"
  have p1: "lookup sc1 (set (facet vs j)) \<noteq> None" if "j < length vs" for j
    using ok that unfolding all_faces_in_ok by blast
  have le: "lookup sc2 (set (facet vs j)) \<noteq> None \<and> ?g2 j \<le> ?g1 j" if "j < length vs" for j
  proof -
    from p1[OF that] obtain f where f: "lookup sc1 (set (facet vs j)) = Some f" by auto
    from not_aboveD[OF ab this] f show ?thesis by auto
  qed
  then have ok2: "fst (all_faces_in vs fv sc2)" unfolding all_faces_in_ok by blast
  have v1: "fst (snd (all_faces_in vs fv sc1)) = Max (insert fv (?g1 ` {0..<length vs}))"
    using ok all_faces_in_from_value unfolding all_faces_in_def by blast
  have v2: "fst (snd (all_faces_in vs fv sc2)) = Max (insert fv (?g2 ` {0..<length vs}))"
    using ok2 all_faces_in_from_value unfolding all_faces_in_def by blast
  have "Max (insert fv (?g2 ` {0..<length vs})) \<le> Max (insert fv (?g1 ` {0..<length vs}))"
  proof (subst Max_le_iff)
    show "finite (insert fv (?g2 ` {0..<length vs}))" by simp
    show "insert fv (?g2 ` {0..<length vs}) \<noteq> {}" by simp
    show "\<forall>a \<in> insert fv (?g2 ` {0..<length vs}). a \<le> Max (insert fv (?g1 ` {0..<length vs}))"
    proof
      fix a assume "a \<in> insert fv (?g2 ` {0..<length vs})"
      then consider "a = fv" | j where "j < length vs" "a = ?g2 j" by auto
      then show "a \<le> Max (insert fv (?g1 ` {0..<length vs}))"
      proof cases
        case 1
        then show ?thesis by simp
      next
        case 2
        have "?g1 j \<le> Max (insert fv (?g1 ` {0..<length vs}))"
          using 2(1) by (intro Max_ge) auto
        with le[OF 2(1)] 2(2) show ?thesis by simp
      qed
    qed
  qed
  with ok2 v1 v2 show ?thesis by simp
qed


lemma dim_zero_loop_lower:
  assumes "a1 \<le> a2"
  shows "(w1 \<longrightarrow> w2) \<Longrightarrow> keeps_lower sc2 \<Longrightarrow> not_above sc1 sc2 \<Longrightarrow>
         sim_lower (dim_zero_loop pe a1 nr w1 it s sc1) (dim_zero_loop pe a2 nr w2 it s sc2)"
proof (induction it arbitrary: nr w1 w2 sc1 sc2)
  case Nil
  then show ?case by (simp add: dim_zero_loop_Nil sim_lower_def)
next
  case (Cons p it)
  obtain v d where p: "p = (v, d)" by (cases p)
  have e2: "effect s (map fst (p # it)) 0 w2 sc2 (dim_zero_loop pe a2 nr w2 (p # it) s sc2)"
    by (rule dim_zero_loop_effect)
  show ?case
  proof (cases "le_norelax (d - a1) nr")
    case False
    then have "dim_zero_loop pe a1 nr w1 (p # it) s sc1 = (w1, s, sc1)"
      by (simp add: p dim_zero_loop_Cons)
    then show ?thesis using sim_lower_stop[OF Cons.prems e2] by simp
  next
    case True
    then have g2: "le_norelax (d - a2) nr" using assms le_norelax_mono[of "d - a2" "d - a1"] by simp
    let ?r1 = "all_faces_in (s @ [v]) (excess d nr) sc1"
    let ?r2 = "all_faces_in (s @ [v]) (excess d nr) sc2"
    let ?nr = "if lt_norelax d nr then Finite d else nr"
    let ?c1 = "if fst ?r1 then insert_simplex (snd (snd ?r1)) (s @ [v]) (fst (snd ?r1)) else snd (snd ?r1)"
    let ?c2 = "if fst ?r2 then insert_simplex (snd (snd ?r2)) (s @ [v]) (fst (snd ?r2)) else snd (snd ?r2)"
    have ok: "fst ?r1 \<longrightarrow> fst ?r2"
      using all_faces_in_value_mono[OF Cons.prems(3)] by blast
    have k2: "keeps_lower (snd (snd ?r2))"
      using Cons.prems(2) by (simp add: keeps_lower_all_faces_in)
    have base: "not_above (snd (snd ?r1)) (snd (snd ?r2))"
      using Cons.prems(3) by (rule not_above_lookup_eq[OF all_faces_in_lookup all_faces_in_lookup])
    have k: "keeps_lower ?c2" using k2 by simp
    have c: "not_above ?c1 ?c2"
    proof (cases "fst ?r1")
      case True
      from all_faces_in_value_mono[OF Cons.prems(3) True]
      have "fst ?r2" "fst (snd ?r2) \<le> fst (snd ?r1)" by simp_all
      with True show ?thesis using not_above_insert[OF base k2] by simp
    next
      case r1: False
      show ?thesis
      proof (cases "fst ?r2")
        case True
        have "replay (snd (snd ?r2)) [Insert (s @ [v]) (fst (snd ?r2))] = Some ?c2"
          using True all_faces_in_verified[OF True] by simp
        from not_above_trans[OF base replay_not_above[OF this]] r1 show ?thesis by simp
      next
        case False
        with r1 base show ?thesis by simp
      qed
    qed
    have "sim_lower (dim_zero_loop pe a1 ?nr (fst ?r1 \<or> w1) it s ?c1)
                    (dim_zero_loop pe a2 ?nr (fst ?r2 \<or> w2) it s ?c2)"
      using ok Cons.prems(1) k c by (intro Cons.IH) auto
    then show ?thesis using True g2 by (simp add: p dim_zero_loop_Cons Let_def)
  qed
qed

lemma add_lower_both:
  assumes "a1 \<le> a2"
  shows "(keeps_lower sc2 \<and> not_above sc1 sc2 \<longrightarrow>
           sim_lower (add_all_faces_of_dimension pe dm a1 nr it s sc1)
                     (add_all_faces_of_dimension pe dm a2 nr it s sc2))
       \<and> ((w1 \<longrightarrow> w2) \<and> keeps_lower sc2 \<and> not_above sc1 sc2 \<longrightarrow>
           sim_lower (dim_pos_loop pe dm a1 nr w1 it s sc1) (dim_pos_loop pe dm a2 nr w2 it s sc2))"
proof (induction it arbitrary: dm nr w1 w2 s sc1 sc2)
  case Nil
  show ?case by (simp add: add_all_faces_of_dimension_Nil dim_pos_loop_Nil sim_lower_def)
next
  case (Cons p it)
  obtain v d where p: "p = (v, d)" by (cases p)
  have IHadd: "sim_lower (add_all_faces_of_dimension pe dm a1 nr it s sc1)
                         (add_all_faces_of_dimension pe dm a2 nr it s sc2)"
    if "keeps_lower sc2" "not_above sc1 sc2" for dm nr s sc1 sc2
    using Cons.IH that by blast
  have IHloop: "sim_lower (dim_pos_loop pe dm a1 nr w1 it s sc1) (dim_pos_loop pe dm a2 nr w2 it s sc2)"
    if "w1 \<longrightarrow> w2" "keeps_lower sc2" "not_above sc1 sc2" for dm nr w1 w2 s sc1 sc2
    using Cons.IH that by blast
  have loop: "sim_lower (dim_pos_loop pe dm a1 nr w1 (p # it) s sc1)
                        (dim_pos_loop pe dm a2 nr w2 (p # it) s sc2)"
    if w: "w1 \<longrightarrow> w2" and k: "keeps_lower sc2" and c: "not_above sc1 sc2"
    for dm nr w1 w2 s sc1 sc2
  proof (cases "le_norelax (d - a1) nr")
    case False
    then have "dim_pos_loop pe dm a1 nr w1 (p # it) s sc1 = (w1, s, sc1)"
      by (simp add: p dim_pos_loop_Cons)
    moreover have "effect s (map fst (p # it)) dm w2 sc2 (dim_pos_loop pe dm a2 nr w2 (p # it) s sc2)"
      using add_effect_both by blast
    ultimately show ?thesis using sim_lower_stop[OF w k c] by simp
  next
    case True
    then have g2: "le_norelax (d - a2) nr" using assms le_norelax_mono[of "d - a2" "d - a1"] by simp
    let ?f1 = "lookup sc1 (set (s @ [v])) \<noteq> None" and ?f2 = "lookup sc2 (set (s @ [v])) \<noteq> None"
    let ?l1 = "log_find sc1 (s @ [v])" and ?l2 = "log_find sc2 (s @ [v])"
    let ?r1 = "if ?f1 then add_all_faces_of_dimension pe (dm - 1) a1 nr it (s @ [v]) ?l1
               else (False, s @ [v], ?l1)"
    let ?r2 = "if ?f2 then add_all_faces_of_dimension pe (dm - 1) a2 nr it (s @ [v]) ?l2
               else (False, s @ [v], ?l2)"
    let ?nr = "if le_norelax d nr then Finite d else nr"
    let ?q1 = "add_all_faces_of_dimension pe dm a1 ?nr it s (snd (snd ?r1))"
    let ?q2 = "add_all_faces_of_dimension pe dm a2 ?nr it s (snd (snd ?r2))"
    have f: "?f1 \<longrightarrow> ?f2" using not_above_contained[OF c] unfolding contained_in_iff by blast
    have kl: "keeps_lower ?l2" using k by simp
    have cl: "not_above ?l1 ?l2"
      using c by (rule not_above_lookup_eq[OF lookup_log_find lookup_log_find])
    have s1: "sim_lower ?r1 ?r2"
    proof (cases ?f1)
      case True
      with f show ?thesis using IHadd[OF kl cl] by simp
    next
      case f1: False
      show ?thesis
      proof (cases ?f2)
        case True
        have "effect (s @ [v]) (map fst it) (dm - 1) False ?l2
                (add_all_faces_of_dimension pe (dm - 1) a2 nr it (s @ [v]) ?l2)"
          by (rule add_all_faces_of_dimension_effect)
        from sim_lower_stop[OF _ kl cl this, of False "s @ [v]"] f1 True show ?thesis by simp
      next
        case False
        with f1 kl cl show ?thesis by (simp add: sim_lower_def)
      qed
    qed
    then have s2: "sim_lower ?q1 ?q2" unfolding sim_lower_def using IHadd[unfolded sim_lower_def] by blast
    have "sim_lower (dim_pos_loop pe dm a1 ?nr (fst ?q1 \<or> fst ?r1 \<or> w1) it s (snd (snd ?q1)))
                    (dim_pos_loop pe dm a2 ?nr (fst ?q2 \<or> fst ?r2 \<or> w2) it s (snd (snd ?q2)))"
      using s1 s2 w unfolding sim_lower_def by (intro IHloop[unfolded sim_lower_def]) auto
    then show ?thesis using True g2 by (simp add: p dim_pos_loop_Cons Let_def)
  qed
  have add: "sim_lower (add_all_faces_of_dimension pe dm a1 nr (p # it) s sc1)
                       (add_all_faces_of_dimension pe dm a2 nr (p # it) s sc2)"
    if k: "keeps_lower sc2" and c: "not_above sc1 sc2"
    using loop[of False False sc2 sc1 dm nr s]
      dim_zero_loop_lower[OF assms, of False False sc2 sc1] k c
    by (simp add: add_all_faces_of_dimension_Cons sim_lower_def)
  from loop add show ?case by blast
qed

lemma add_all_faces_of_dimension_lower:
  "a1 \<le> a2 \<Longrightarrow> keeps_lower sc2 \<Longrightarrow> not_above sc1 sc2 \<Longrightarrow>
   sim_lower (add_all_faces_of_dimension pe dm a1 nr it s sc1)
             (add_all_faces_of_dimension pe dm a2 nr it s sc2)"
  using add_lower_both by blast

lemma dimension_pass_keeps_lower:
  "keeps_lower (snd (dimension_pass k a aws sc)) = keeps_lower sc"
  using dimension_pass_trace[of sc k a aws] replay_keeps_lower by blast

lemma dimension_pass_not_above: "not_above sc (snd (dimension_pass k a aws sc))"
  using dimension_pass_trace[of sc k a aws] replay_not_above by blast

lemma dimension_pass_lower:
  assumes "a1 \<le> a2"
  shows "subseq aws1 aws2 \<Longrightarrow> keeps_lower sc2 \<Longrightarrow> not_above sc1 sc2 \<Longrightarrow>
         subseq (fst (dimension_pass k a1 aws1 sc1)) (fst (dimension_pass k a2 aws2 sc2))
         \<and> not_above (snd (dimension_pass k a1 aws1 sc1)) (snd (dimension_pass k a2 aws2 sc2))"
proof (induction aws2 arbitrary: aws1 sc1 sc2)
  case Nil
  from Nil(1) have "aws1 = []" by (rule list_emb_Nil2)
  with Nil(3) show ?case by simp
next
  case (Cons aw2 aws2)
  let ?r2 = "add_all_faces_of_dimension (past_end aw2) k a2 Infinity (ranking aw2) [] sc2"
  have e2: "effect [] (map fst (ranking aw2)) k False sc2 ?r2"
    by (rule add_all_faces_of_dimension_effect)
  have g2: "not_above sc2 (snd (snd ?r2))" using effect_lowers[OF e2] by blast
  have k2: "keeps_lower (snd (snd ?r2))" using effect_keeps_lower[OF e2] Cons.prems(2) by simp
  show ?case
  proof (cases aws1)
    case Nil
    have "not_above sc1 (snd (dimension_pass k a2 (aw2 # aws2) sc2))"
      using not_above_trans[OF Cons.prems(3) dimension_pass_not_above] .
    with Nil show ?thesis by simp
  next
    case (Cons aw1 rest1)
    show ?thesis
    proof (cases "aw1 = aw2")
      case True
      with Cons Cons.prems(1) have sub: "subseq rest1 aws2" by simp
      let ?r1 = "add_all_faces_of_dimension (past_end aw2) k a1 Infinity (ranking aw2) [] sc1"
      have s: "sim_lower ?r1 ?r2"
        using add_all_faces_of_dimension_lower[OF assms Cons.prems(2,3)] .
      then have c: "not_above (snd (snd ?r1)) (snd (snd ?r2))" and f: "fst ?r1 \<longrightarrow> fst ?r2"
        unfolding sim_lower_def by simp_all
      from Cons.IH[OF sub k2 c]
      have "subseq (fst (dimension_pass k a1 rest1 (snd (snd ?r1))))
                   (fst (dimension_pass k a2 aws2 (snd (snd ?r2))))"
        "not_above (snd (dimension_pass k a1 rest1 (snd (snd ?r1))))
                   (snd (dimension_pass k a2 aws2 (snd (snd ?r2))))" by simp_all
      then show ?thesis using f True Cons
        by (auto simp: dimension_pass_Cons Let_def)
    next
      case False
      with Cons Cons.prems(1) have sub: "subseq aws1 aws2" by simp
      from Cons.IH[OF sub k2 not_above_trans[OF Cons.prems(3) g2]]
      have "subseq (fst (dimension_pass k a1 aws1 sc1))
                   (fst (dimension_pass k a2 aws2 (snd (snd ?r2))))"
        "not_above (snd (dimension_pass k a1 aws1 sc1))
                   (snd (dimension_pass k a2 aws2 (snd (snd ?r2))))" by simp_all
      then show ?thesis by (auto simp: dimension_pass_Cons Let_def)
    qed
  qed
qed

lemma main_loop_not_above: "not_above sc (snd (snd (main_loop k lm a aws sc)))"
proof -
  from main_loop_trace[of k lm a aws sc] obtain cs where
    "replay sc cs = Some (snd (snd (main_loop k lm a aws sc)))" by auto
  then show ?thesis by (rule replay_not_above)
qed

lemma main_loop_lower:
  assumes "a1 \<le> a2"
  shows "subseq aws1 aws2 \<Longrightarrow> keeps_lower sc2 \<Longrightarrow> not_above sc1 sc2 \<Longrightarrow>
         not_above (snd (snd (main_loop k lm a1 aws1 sc1))) (snd (snd (main_loop k lm a2 aws2 sc2)))"
proof (induction "nat (lm + 1 - k)" arbitrary: k aws1 aws2 sc1 sc2)
  case 0
  then have "main_loop k lm a1 aws1 sc1 = (k, aws1, sc1)" by (subst main_loop_step) simp
  then show ?case using not_above_trans[OF 0(4) main_loop_not_above] by simp
next
  case (Suc n)
  show ?case
  proof (cases "aws1 \<noteq> [] \<and> k \<le> lm")
    case False
    then have "main_loop k lm a1 aws1 sc1 = (k, aws1, sc1)" by (subst main_loop_step) auto
    then show ?thesis using not_above_trans[OF Suc.prems(3) main_loop_not_above] by simp
  next
    case True
    with Suc.prems(1) have ne: "aws2 \<noteq> []" by auto
    let ?p1 = "dimension_pass k a1 aws1 sc1" and ?p2 = "dimension_pass k a2 aws2 sc2"
    have e1: "main_loop k lm a1 aws1 sc1 = main_loop (k + 1) lm a1 (fst ?p1) (snd ?p1)"
      using True by (subst main_loop_step) simp
    have e2: "main_loop k lm a2 aws2 sc2 = main_loop (k + 1) lm a2 (fst ?p2) (snd ?p2)"
      using True ne by (subst main_loop_step) simp
    have n: "n = nat (lm + 1 - (k + 1))" using Suc.hyps(2) by simp
    have k2: "keeps_lower (snd ?p2)" using Suc.prems(2) by (simp add: dimension_pass_keeps_lower)
    from dimension_pass_lower[OF assms Suc.prems] have "subseq (fst ?p1) (fst ?p2)"
      "not_above (snd ?p1) (snd ?p2)" by simp_all
    from Suc.hyps(1)[OF n this(1) k2 this(2)] show ?thesis unfolding e1 e2 .
  qed
qed

lemma keeps_lower_seed_vertices [simp]: "keeps_lower (seed_vertices n sc) = keeps_lower sc"
  using seed_vertices_replay[of sc n] replay_keeps_lower by blast


section \<open>The claims\<close>

text \<open>
  C1. Take a run of \<open>create_complex\<close> on a downward closed complex. The calls it
  makes, replayed from the complex it was given, lead to the complex it leaves, and every
  \<open>insert_simplex\<close> among them of a simplex on two or more vertices comes when each of
  its facets is stored (\<open>replay\<close> fails otherwise). The complex it leaves is downward
  closed: with a simplex it holds all its non-empty faces.
\<close>

theorem downward_closure:
  assumes "downward_closed sc"
    and "create_complex wc sc max_alpha_square limit_dimension = Inr (ok, sc')"
  shows "(\<exists>cs. calls sc' = calls sc @ cs \<and> replay sc cs = Some sc') \<and> downward_closed sc'"
proof -
  from create_complex_replay[OF assms(2)] obtain cs where cs: "replay sc cs = Some sc'" by blast
  from replay_closed[OF cs] assms(1) have "downward_closed sc'"
    by (simp add: downward_closed_iff)
  with cs replay_calls[OF cs] show ?thesis by blast
qed

theorem downward_closure_witness:
  "downward_closed ex_empty
   \<and> create_complex ex_three ex_empty 2 5 = Inr (True, ex_three_result)
   \<and> replay ex_empty (calls ex_three_result) = Some ex_three_result
   \<and> downward_closed ex_three_result"
proof -
  have 1: "downward_closed ex_empty" by code_simp
  have 2: "calls ex_empty = []" by code_simp
  from downward_closure[OF 1 ex_three_run] 2 show ?thesis
    using 1 ex_three_run by auto
qed

text \<open>
  C2. When \<open>add_all_faces_of_dimension\<close> reaches, in its loop for \<open>dim == 0\<close>, a
  candidate within the window whose facets are all stored, it calls \<open>insert_simplex\<close>
  with the maximum of the excess \<open>max(0, distance - norelax_dist2)\<close> (zero for an
  infinite \<open>norelax_dist2\<close>) and of the largest filtration value of a facet. A run of
  \<open>create_complex\<close> on a downward closed complex with a monotone filtration leaves a
  complex with a monotone filtration: no face has a larger value than the simplex.
\<close>

theorem filtration_monotonicity:
  "(le_norelax (d - alpha2) norelax_dist2
      \<and> (\<forall>j \<in> set [0..<length (simplex @ [v])]. lookup sc (set (facet (simplex @ [v]) j)) \<noteq> None)
    \<longrightarrow> (\<exists>sc1. lookup sc1 = lookup sc \<and>
          dim_zero_loop pe alpha2 norelax_dist2 will_be_active ((v, d) # l_it) simplex sc =
          dim_zero_loop pe alpha2 (if lt_norelax d norelax_dist2 then Finite d else norelax_dist2)
            True l_it simplex
            (insert_simplex sc1 (simplex @ [v])
               (max (case norelax_dist2 of Infinity \<Rightarrow> 0 | Finite r \<Rightarrow> max 0 (d - r))
                    (Max ((\<lambda>j. the (lookup sc (set (facet (simplex @ [v]) j))))
                            ` set [0..<length (simplex @ [v])]))))))
   \<and> (downward_closed sc \<and> filtration_monotone sc
        \<and> create_complex wc sc max_alpha_square limit_dimension = Inr (ok, sc')
      \<longrightarrow> filtration_monotone sc')"
proof (intro conjI impI)
  assume a: "le_norelax (d - alpha2) norelax_dist2
      \<and> (\<forall>j \<in> set [0..<length (simplex @ [v])]. lookup sc (set (facet (simplex @ [v]) j)) \<noteq> None)"
  let ?vs = "simplex @ [v]"
  let ?r = "all_faces_in ?vs (excess d norelax_dist2) sc"
  let ?g = "\<lambda>j. the (lookup sc (set (facet ?vs j)))"
  have ok: "fst ?r" unfolding all_faces_in_def all_faces_in_from_ok
  proof (intro allI impI)
    fix j assume "0 \<le> j \<and> j < length ?vs"
    then have "j \<in> set [0..<length ?vs]" by auto
    with a show "lookup sc (set (facet ?vs j)) \<noteq> None" by blast
  qed
  have ex: "excess d norelax_dist2 = (case norelax_dist2 of Infinity \<Rightarrow> 0 | Finite r \<Rightarrow> max 0 (d - r))"
    by (cases norelax_dist2) auto
  have "fst (snd ?r) = Max (insert (excess d norelax_dist2) (?g ` {0..<length ?vs}))"
    using ok all_faces_in_from_value unfolding all_faces_in_def by blast
  also have "\<dots> = max (excess d norelax_dist2) (Max (?g ` {0..<length ?vs}))"
    by (intro Max_insert) simp_all
  finally have "fst (snd ?r) = max (excess d norelax_dist2) (Max (?g ` {0..<length ?vs}))" .
  then have val: "fst (snd ?r) = max (case norelax_dist2 of Infinity \<Rightarrow> 0 | Finite r \<Rightarrow> max 0 (d - r))
                    (Max (?g ` set [0..<length ?vs]))"
    unfolding atLeastLessThan_upt by (simp only: ex)
  have l: "lookup (snd (snd ?r)) = lookup sc"
    unfolding all_faces_in_def by (rule all_faces_in_from_lookup)
  have "dim_zero_loop pe alpha2 norelax_dist2 will_be_active ((v, d) # l_it) simplex sc =
          dim_zero_loop pe alpha2 (if lt_norelax d norelax_dist2 then Finite d else norelax_dist2)
            True l_it simplex (insert_simplex (snd (snd ?r)) ?vs (fst (snd ?r)))"
    using a ok by (simp add: dim_zero_loop_Cons Let_def)
  with l val show "\<exists>sc1. lookup sc1 = lookup sc \<and>
          dim_zero_loop pe alpha2 norelax_dist2 will_be_active ((v, d) # l_it) simplex sc =
          dim_zero_loop pe alpha2 (if lt_norelax d norelax_dist2 then Finite d else norelax_dist2)
            True l_it simplex
            (insert_simplex sc1 ?vs
               (max (case norelax_dist2 of Infinity \<Rightarrow> 0 | Finite r \<Rightarrow> max 0 (d - r))
                    (Max (?g ` set [0..<length ?vs]))))"
    by (intro exI[of _ "snd (snd ?r)"]) simp
next
  assume a: "downward_closed sc \<and> filtration_monotone sc
        \<and> create_complex wc sc max_alpha_square limit_dimension = Inr (ok, sc')"
  then obtain cs where cs: "replay sc cs = Some sc'" using create_complex_replay by blast
  from replay_closed_monotone[OF cs] a show "filtration_monotone sc'"
    by (simp add: downward_closed_iff filtration_monotone_iff)
qed

theorem filtration_monotonicity_witness:
  "le_norelax (4 - 2) (Finite 2)
   \<and> lookup (seed_vertices 3 ex_empty) (set (facet [1, 2] 0)) \<noteq> None
   \<and> lookup (seed_vertices 3 ex_empty) (set (facet [1, 2] 1)) \<noteq> None
   \<and> (\<exists>sc1. lookup sc1 = lookup (seed_vertices 3 ex_empty) \<and>
          dim_zero_loop (0, 0) 2 (Finite 2) True [(2, 4)] [1] (seed_vertices 3 ex_empty) =
          dim_zero_loop (0, 0) 2 (Finite 2) True [] [1] (insert_simplex sc1 [1, 2] 2))
   \<and> downward_closed ex_empty \<and> filtration_monotone ex_empty
   \<and> create_complex ex_three ex_empty 2 5 = Inr (True, ex_three_result)
   \<and> filtration_monotone ex_three_result"
proof -
  have 1: "le_norelax (4 - 2) (Finite 2)" by simp
  have 2: "\<forall>j \<in> set [0..<length ([1] @ [2::nat])].
             lookup (seed_vertices 3 ex_empty) (set (facet ([1] @ [2]) j)) \<noteq> None"
    by code_simp
  have 3: "downward_closed ex_empty" by code_simp
  have 4: "filtration_monotone ex_empty" by code_simp
  have 5: "max (case Finite 2 of Infinity \<Rightarrow> 0 | Finite r \<Rightarrow> max 0 (4 - r))
             (Max ((\<lambda>j. the (lookup (seed_vertices 3 ex_empty) (set (facet [1, 2] j))))
                     ` set [0..<length [1, 2::nat]])) = (2::real)"
    by code_simp
  have 6: "lookup (seed_vertices 3 ex_empty) (set (facet [1, 2] 0)) \<noteq> None" by code_simp
  have 7: "lookup (seed_vertices 3 ex_empty) (set (facet [1, 2] 1)) \<noteq> None" by code_simp
  have 8: "(if lt_norelax 4 (Finite 2) then Finite 4 else Finite 2) = Finite 2" by simp
  have 9: "[1] @ [2::nat] = [1, 2]" by simp
  from filtration_monotonicity[of 4 2 "Finite 2" "[1]" 2 "seed_vertices 3 ex_empty" "(0, 0)"
      True "[]"] 1 2
  have "\<exists>sc1. lookup sc1 = lookup (seed_vertices 3 ex_empty) \<and>
          dim_zero_loop (0, 0) 2 (Finite 2) True [(2, 4)] [1] (seed_vertices 3 ex_empty) =
          dim_zero_loop (0, 0) 2 (Finite 2) True [] [1] (insert_simplex sc1 [1, 2] 2)"
    unfolding 8 9 5 by blast
  moreover from filtration_monotonicity[of _ _ _ _ _ ex_empty _ _ _ ex_three 2 5 True
      ex_three_result] 3 4 ex_three_run
  have "filtration_monotone ex_three_result" by blast
  ultimately show ?thesis using 1 3 4 6 7 ex_three_run by blast
qed

text \<open>
  C3. If the target complex has a vertex, or the squared relaxation is negative, or the
  dimension limit is negative, \<open>create_complex\<close> returns false and the complex it was
  given, with no call recorded. A complex that a successful run over at least one landmark
  has filled makes every later run fail in that way.
\<close>

theorem precondition_failure_no_effect:
  "(0 < num_vertices sc \<or> max_alpha_square < 0 \<or> limit_dimension < 0
      \<longrightarrow> create_complex wc sc max_alpha_square limit_dimension = Inr (False, sc))
   \<and> (create_complex wc sc max_alpha_square limit_dimension = Inr (True, sc1) \<and> 0 < nbL wc
      \<longrightarrow> create_complex wc2 sc1 a2 lm2 = Inr (False, sc1))"
proof (intro conjI impI)
  assume "0 < num_vertices sc \<or> max_alpha_square < 0 \<or> limit_dimension < 0"
  then show "create_complex wc sc max_alpha_square limit_dimension = Inr (False, sc)"
    unfolding create_complex_def by auto
next
  assume "create_complex wc sc max_alpha_square limit_dimension = Inr (True, sc1) \<and> 0 < nbL wc"
  then have "0 < num_vertices sc1" using created_complex_has_vertices by blast
  then show "create_complex wc2 sc1 a2 lm2 = Inr (False, sc1)"
    unfolding create_complex_def by simp
qed

theorem precondition_failure_no_effect_witness:
  "0 < num_vertices ex_one_result
   \<and> create_complex ex_one ex_one_result (-1) (-1) = Inr (False, ex_one_result)
   \<and> create_complex ex_one ex_empty 0 5 = Inr (True, ex_one_result) \<and> 0 < nbL ex_one
   \<and> create_complex ex_one ex_one_result 0 5 = Inr (False, ex_one_result)"
proof -
  have 1: "0 < num_vertices ex_one_result" by code_simp
  have 2: "0 < nbL ex_one" by code_simp
  show ?thesis
    using 1 2 ex_one_run
      precondition_failure_no_effect[of ex_one_result "-1" "-1" ex_one ex_one_result ex_one 0 5]
      precondition_failure_no_effect[of ex_empty 0 5 ex_one ex_one_result ex_one 0 5]
    by simp
qed

text \<open>
  C4. A successful run of \<open>create_complex\<close> starts with the calls
  \<open>insert_simplex([i], 0)\<close> for \<open>i = 0, ..., nbL - 1\<close> in this order, before any
  other call, and in the complex it leaves every such \<open>[i]\<close> is found with
  filtration value 0.
\<close>

theorem dimension_zero_completeness:
  assumes "create_complex wc sc max_alpha_square limit_dimension = Inr (True, sc')"
  shows "(\<exists>cs. calls sc' = calls sc @ map (\<lambda>i. Insert [i] 0) [0..<nbL wc] @ cs)
         \<and> (\<forall>i \<in> set [0..<nbL wc]. fst (find_simplex sc' [i]) = Some 0)"
proof -
  from create_complex_calls[OF assms] obtain k aws sc2 cs where
    m: "sc' = set_dimension sc2 (k - 1)"
       "replay (seed_vertices (nbL wc) sc) cs = Some sc2"
       "replay sc (map (\<lambda>i. Insert [i] 0) [0..<nbL wc] @ cs @ [Set_dimension (k - 1)]) = Some sc'"
       "\<forall>c \<in> set cs. \<exists>aw \<in> set (nearest wc). \<exists>j. 1 \<le> j \<and> j < k
           \<and> call_ok [] (map fst (ranking aw)) j c"
    by blast
  from create_complex_success[OF assms] have nv: "num_vertices sc = 0" by simp
  have l: "\<forall>vs g. Insert vs g \<in> set cs \<longrightarrow> 2 \<le> length vs"
  proof (intro allI impI)
    fix vs g assume "Insert vs g \<in> set cs"
    with m(4) have "\<exists>aw \<in> set (nearest wc). \<exists>j. 1 \<le> j \<and> j < k
           \<and> call_ok [] (map fst (ranking aw)) j (Insert vs g)" by (rule bspec)
    then obtain aw j where "aw \<in> set (nearest wc)" "1 \<le> j"
      "call_ok [] (map fst (ranking aw)) j (Insert vs g)" by blast
    then show "2 \<le> length vs" by simp
  qed
  have "fst (find_simplex sc' [i]) = Some 0" if "i \<in> set [0..<nbL wc]" for i
  proof -
    from that have "i < nbL wc" by simp
    from replay_keeps_vertex[OF m(2) seed_vertices_lookup[OF nv this] l]
    show ?thesis unfolding m(1) by (simp add: find_simplex_eq)
  qed
  with replay_calls[OF m(3)] show ?thesis by blast
qed

theorem dimension_zero_completeness_witness:
  "create_complex ex_three ex_empty 2 5 = Inr (True, ex_three_result)
   \<and> take 3 (calls ex_three_result) = [Insert [0] 0, Insert [1] 0, Insert [2] 0]
   \<and> fst (find_simplex ex_three_result [0]) = Some 0
   \<and> fst (find_simplex ex_three_result [1]) = Some 0
   \<and> fst (find_simplex ex_three_result [2]) = Some 0"
proof -
  have 1: "nbL ex_three = 3" by code_simp
  have 2: "take 3 (calls ex_three_result) = [Insert [0] 0, Insert [1] 0, Insert [2] 0]"
    by code_simp
  have 3: "set [0..<3] = {0, 1, 2::nat}" by code_simp
  from dimension_zero_completeness[OF ex_three_run] 1 3
  have "fst (find_simplex ex_three_result [0]) = Some 0
      \<and> fst (find_simplex ex_three_result [1]) = Some 0
      \<and> fst (find_simplex ex_three_result [2]) = Some 0" by simp
  with 2 ex_three_run show ?thesis by blast
qed



text \<open>
  C6. \<open>add_all_faces_of_dimension\<close> returns true exactly when one of the calls it made,
  nested calls included, was an \<open>insert_simplex\<close>; on an iterator at the end it returns
  false and changes nothing. In a pass of \<open>create_complex\<close> a witness stays in the list
  exactly when its call returned true, so the list after the pass is a sublist of the one
  before, and the next pass of the main loop runs over that list only.
\<close>

theorem recursion_result_and_deactivation:
  "(\<exists>cs. calls (snd (snd (add_all_faces_of_dimension pe dm alpha2 norelax curr_l simplex sc)))
            = calls sc @ cs
        \<and> (fst (add_all_faces_of_dimension pe dm alpha2 norelax curr_l simplex sc)
             \<longleftrightarrow> (\<exists>c \<in> set cs. is_insert c)))
   \<and> add_all_faces_of_dimension pe dm alpha2 norelax [] simplex sc = (False, simplex, sc)
   \<and> dimension_pass k alpha2 (aw # aws) sc =
       (let r = add_all_faces_of_dimension (past_end aw) k alpha2 Infinity (ranking aw) [] sc;
            p = dimension_pass k alpha2 aws (snd (snd r))
        in (if fst r then aw # fst p else fst p, snd p))
   \<and> subseq (fst (dimension_pass k alpha2 aws sc)) aws
   \<and> main_loop k limit_dimension alpha2 aws sc =
       (if aws \<noteq> [] \<and> k \<le> limit_dimension
        then main_loop (k + 1) limit_dimension alpha2 (fst (dimension_pass k alpha2 aws sc))
               (snd (dimension_pass k alpha2 aws sc))
        else (k, aws, sc))"
  using add_all_faces_of_dimension_calls[of pe dm alpha2 norelax curr_l simplex sc]
    add_all_faces_of_dimension_Nil[of pe dm alpha2 norelax simplex sc]
    dimension_pass_Cons[of k alpha2 aw aws sc] dimension_pass_subseq[of k alpha2 aws sc]
    main_loop_step[of k limit_dimension alpha2 aws sc]
  by blast

theorem recursion_result_and_deactivation_witness:
  "fst (add_all_faces_of_dimension (0, 0) 1 2 Infinity [(1, 1), (0, 2), (2, 4)] []
          (seed_vertices 3 ex_empty))
   \<and> is_insert (Insert [1, 0] 0)
   \<and> \<not> fst (add_all_faces_of_dimension (0, 0) 1 0 Infinity [(0, 1)] [] (seed_vertices 1 ex_empty))
   \<and> fst (dimension_pass 1 0 (nearest ex_one) (seed_vertices 1 ex_empty)) = []"
proof -
  have 1: "fst (add_all_faces_of_dimension (0, 0) 1 2 Infinity [(1, 1), (0, 2), (2, 4)] []
          (seed_vertices 3 ex_empty))" by code_simp
  have 2: "\<not> fst (add_all_faces_of_dimension (0, 0) 1 0 Infinity [(0, 1)] []
          (seed_vertices 1 ex_empty))" by code_simp
  have 3: "nearest ex_one = [\<lparr>ranking = [(0, 1)], past_end = (0, 0)\<rparr>]" by code_simp
  from recursion_result_and_deactivation[of "(0, 0)" 1 0 Infinity "[(0, 1)]" "[]"
      "seed_vertices 1 ex_empty" 1 "\<lparr>ranking = [(0, 1)], past_end = (0, 0)\<rparr>" "[]" 5] 2 3
  have "fst (dimension_pass 1 0 (nearest ex_one) (seed_vertices 1 ex_empty)) = []"
    by (simp add: Let_def)
  with 1 2 show ?thesis by simp
qed

text \<open>
  C7, as the code has it. Start from an empty complex and let \<open>create_complex\<close> succeed.
  The main loop has stopped with no active witness left or with its counter \<open>k\<close> above
  \<open>limit_dimension\<close>; the last call is \<open>set_dimension(k - 1)\<close>; and \<open>k - 1\<close>, the number
  of passes made, is an upper bound of the dimension of every simplex in the complex. It
  need not be attained: with one landmark, which every witness ranks alone, and a limit of
  at least 1, the complex has the vertex 0 with filtration value 0 and nothing else, and
  its declared dimension is 1.
\<close>

theorem declared_dimension_bound:
  assumes "entries sc = []"
    and "create_complex wc sc max_alpha_square limit_dimension = Inr (True, sc')"
  shows "(\<exists>k aws sc2.
            main_loop 1 limit_dimension max_alpha_square (nearest wc) (seed_vertices (nbL wc) sc)
              = (k, aws, sc2)
          \<and> (aws = [] \<or> limit_dimension < k)
          \<and> last (calls sc') = Set_dimension (k - 1) \<and> dimension sc' = k - 1)
       \<and> (\<forall>e \<in> set (entries sc'). int (card (fst e)) - 1 \<le> dimension sc')
       \<and> (nbL wc = 1 \<and> (\<forall>aw \<in> set (nearest wc). \<exists>d. ranking aw = [(0, d)])
             \<and> 1 \<le> limit_dimension
           \<longrightarrow> entries sc' = [({0}, 0)] \<and> dimension sc' = 1)"
proof -
  let ?s = "seed_vertices (nbL wc) sc"
  from create_complex_calls[OF assms(2)] obtain k aws sc2 cs where
    m: "main_loop 1 limit_dimension max_alpha_square (nearest wc) ?s = (k, aws, sc2)"
       "sc' = set_dimension sc2 (k - 1)" "1 \<le> k" "aws = [] \<or> limit_dimension < k"
       "\<forall>c \<in> set cs. \<exists>aw \<in> set (nearest wc). \<exists>j. 1 \<le> j \<and> j < k
           \<and> call_ok [] (map fst (ranking aw)) j c"
       "replay sc (map (\<lambda>i. Insert [i] 0) [0..<nbL wc] @ cs @ [Set_dimension (k - 1)]) = Some sc'"
    by blast
  have first: "\<exists>k aws sc2.
            main_loop 1 limit_dimension max_alpha_square (nearest wc) ?s = (k, aws, sc2)
          \<and> (aws = [] \<or> limit_dimension < k)
          \<and> last (calls sc') = Set_dimension (k - 1) \<and> dimension sc' = k - 1"
    using m(1,2,4) by (intro exI[of _ k] exI[of _ aws] exI[of _ sc2]) simp
  have len: "length vs \<le> nat k"
    if "Insert vs f \<in> set (map (\<lambda>i. Insert [i] 0) [0..<nbL wc] @ cs @ [Set_dimension (k - 1)])"
    for vs f
  proof (cases "Insert vs f \<in> set cs")
    case True
    with m(5) obtain aw j where "aw \<in> set (nearest wc)" "1 \<le> j" "j < k"
      "call_ok [] (map fst (ranking aw)) j (Insert vs f)"
      by blast
    then have "int (length vs) = j + 1" "j < k" by simp_all
    then show ?thesis by linarith
  next
    case False
    with that have "length vs = 1" by auto
    with m(3) show ?thesis by simp
  qed
  have "\<forall>S. lookup sc S \<noteq> None \<longrightarrow> card S \<le> nat k"
    using assms(1) by (simp add: lookup_def)
  from replay_card_bound[OF m(6) this] len
  have cb: "\<forall>S. lookup sc' S \<noteq> None \<longrightarrow> card S \<le> nat k" by blast
  have second: "\<forall>e \<in> set (entries sc'). int (card (fst e)) - 1 \<le> dimension sc'"
  proof
    fix e assume "e \<in> set (entries sc')"
    then have "card (fst e) \<le> nat k" using cb entry_is_stored by blast
    with m(2,3) show "int (card (fst e)) - 1 \<le> dimension sc'" by simp
  qed
  have third: "entries sc' = [({0}, 0)] \<and> dimension sc' = 1"
    if h: "nbL wc = 1 \<and> (\<forall>aw \<in> set (nearest wc). \<exists>d. ranking aw = [(0, d)])
             \<and> 1 \<le> limit_dimension"
  proof -
    let ?p = "dimension_pass 1 max_alpha_square (nearest wc) ?s"
    from create_complex_success[OF assms(2)] have ne: "nearest wc \<noteq> []" by simp
    from h dimension_pass_single_candidates[of "nearest wc" 0 max_alpha_square ?s]
    have p: "fst ?p = []" "entries (snd ?p) = entries ?s" by simp_all
    have "main_loop 1 limit_dimension max_alpha_square (nearest wc) ?s
            = main_loop 2 limit_dimension max_alpha_square (fst ?p) (snd ?p)"
      using ne h by (subst main_loop_step) simp
    also have "\<dots> = (2, [], snd ?p)" unfolding p(1) by (subst main_loop_step) simp
    finally have "k = 2" "sc2 = snd ?p" using m(1) by simp_all
    then show ?thesis using m(2) p(2) h seed_vertices_entries_one[OF assms(1)] by simp
  qed
  from first second third show ?thesis by blast
qed

theorem declared_dimension_bound_witness:
  "entries ex_empty = []
   \<and> create_complex ex_three ex_empty 2 5 = Inr (True, ex_three_result)
   \<and> last (calls ex_three_result) = Set_dimension 2 \<and> dimension ex_three_result = 2
   \<and> highest_dimension ex_three_result = 1
   \<and> create_complex ex_one ex_empty 0 5 = Inr (True, ex_one_result)
   \<and> entries ex_one_result = [({0}, 0)] \<and> dimension ex_one_result = 1"
proof -
  have 1: "entries ex_empty = []" by code_simp
  have 2: "last (calls ex_three_result) = Set_dimension 2" by code_simp
  have 3: "dimension ex_three_result = 2" by code_simp
  have 4: "highest_dimension ex_three_result = 1" by code_simp
  have 5: "nbL ex_one = 1" by code_simp
  have 6: "nearest ex_one = [\<lparr>ranking = [(0, 1)], past_end = (0, 0)\<rparr>]" by code_simp
  from declared_dimension_bound[OF 1 ex_one_run] 5 6
  have "entries ex_one_result = [({0}, 0)] \<and> dimension ex_one_result = 1" by simp
  moreover from declared_dimension_bound[OF 1 ex_three_run]
  have "\<forall>e \<in> set (entries ex_three_result). int (card (fst e)) - 1 \<le> dimension ex_three_result"
    by blast
  ultimately show ?thesis using 1 2 3 4 ex_one_run ex_three_run by blast
qed

text \<open>
  C7, as the claim has it, fails on one landmark with one witness: the run succeeds and
  leaves the vertex 0 alone, of dimension 0, and declares the dimension 1.
\<close>

theorem declared_dimension_counterexample:
  "create_complex ex_one ex_empty 0 5 = Inr (True, ex_one_result)
   \<and> entries ex_one_result = [({0}, 0)]
   \<and> highest_dimension ex_one_result = 0
   \<and> dimension ex_one_result = 1"
proof -
  have "entries ex_one_result = [({0}, 0)]" by code_simp
  moreover have "highest_dimension ex_one_result = 0" by code_simp
  moreover have "dimension ex_one_result = 1" by code_simp
  ultimately show ?thesis using ex_one_run by blast
qed

text \<open>
  C8, as the code has it. Every vertex list that a run of \<open>create_complex\<close> passes to
  \<open>find\<close> or \<open>insert_simplex\<close> is \<open>[i]\<close> for a landmark id \<open>i < nbL\<close>, or lists ids
  of the ranking of one witness in the order of that ranking, with some left out. So the
  list has no id twice when no ranking has, and it is strictly increasing when the
  rankings list their ids in increasing order.
\<close>

theorem vertex_lists_follow_ranking:
  assumes "create_complex wc sc max_alpha_square limit_dimension = Inr (ok, sc')"
  shows "\<exists>cs. calls sc' = calls sc @ cs
          \<and> (\<forall>c \<in> set cs. (\<exists>d. c = Set_dimension d) \<or> built_from wc (vertex_list c))
          \<and> ((\<forall>aw \<in> set (nearest wc). distinct (map fst (ranking aw)))
               \<longrightarrow> (\<forall>c \<in> set cs. distinct (vertex_list c)))
          \<and> ((\<forall>aw \<in> set (nearest wc). sorted_wrt (<) (map fst (ranking aw)))
               \<longrightarrow> (\<forall>c \<in> set cs. sorted_wrt (<) (vertex_list c)))"
proof (cases ok)
  case False
  with assms have "create_complex wc sc max_alpha_square limit_dimension = Inr (False, sc')"
    by simp
  from create_complex_failure[OF this] have "calls sc' = calls sc @ []" by simp
  then show ?thesis by (intro exI[of _ "[]"]) simp
next
  case True
  with assms have "create_complex wc sc max_alpha_square limit_dimension = Inr (True, sc')"
    by simp
  from create_complex_calls[OF this] obtain k cs where
    m: "\<forall>c \<in> set cs. \<exists>aw \<in> set (nearest wc). \<exists>j. 1 \<le> j \<and> j < k
           \<and> call_ok [] (map fst (ranking aw)) j c"
       "replay sc (map (\<lambda>i. Insert [i] 0) [0..<nbL wc] @ cs @ [Set_dimension (k - 1)]) = Some sc'"
    by blast
  let ?cs = "map (\<lambda>i. Insert [i] 0) [0..<nbL wc] @ cs @ [Set_dimension (k - 1)]"
  have shape: "(\<exists>d. c = Set_dimension d) \<or> (\<exists>i \<in> set [0..<nbL wc]. vertex_list c = [i])
        \<or> (\<exists>aw \<in> set (nearest wc). subseq (vertex_list c) (map fst (ranking aw)))"
    if "c \<in> set ?cs" for c
  proof (cases "c \<in> set cs")
    case True
    with m(1) obtain aw j where
      aw: "aw \<in> set (nearest wc)" "call_ok [] (map fst (ranking aw)) j c"
      by blast
    then have "subseq (vertex_list c) (map fst (ranking aw))" by (cases c) simp_all
    with aw(1) show ?thesis by blast
  next
    case False
    with that show ?thesis by auto
  qed
  have 1: "\<forall>c \<in> set ?cs. (\<exists>d. c = Set_dimension d) \<or> built_from wc (vertex_list c)"
    using shape unfolding built_from_def by blast
  have 2: "\<forall>c \<in> set ?cs. distinct (vertex_list c)"
    if d: "\<forall>aw \<in> set (nearest wc). distinct (map fst (ranking aw))"
  proof
    fix c assume "c \<in> set ?cs"
    from shape[OF this] show "distinct (vertex_list c)"
    proof (elim disjE exE bexE)
      fix aw assume "aw \<in> set (nearest wc)" "subseq (vertex_list c) (map fst (ranking aw))"
      with d show ?thesis using subseq_distinct by blast
    qed simp_all
  qed
  have 3: "\<forall>c \<in> set ?cs. sorted_wrt (<) (vertex_list c)"
    if d: "\<forall>aw \<in> set (nearest wc). sorted_wrt (<) (map fst (ranking aw))"
  proof
    fix c assume "c \<in> set ?cs"
    from shape[OF this] show "sorted_wrt (<) (vertex_list c)"
    proof (elim disjE exE bexE)
      fix aw assume "aw \<in> set (nearest wc)" "subseq (vertex_list c) (map fst (ranking aw))"
      with d show ?thesis using subseq_sorted_wrt by blast
    qed simp_all
  qed
  from replay_calls[OF m(2)] 1 2 3 show ?thesis by (intro exI[of _ ?cs]) blast
qed

theorem vertex_lists_follow_ranking_witness:
  "create_complex ex_three ex_empty 2 5 = Inr (True, ex_three_result)
   \<and> distinct (map fst [(1::nat, 1::real), (0, 2), (2, 4)])
   \<and> list_all (\<lambda>c. ((\<exists>d. c = Set_dimension d) \<or> built_from ex_three (vertex_list c))
                      \<and> distinct (vertex_list c))
         (calls ex_three_result)"
proof -
  have 1: "calls ex_empty = []" by code_simp
  have 2: "\<forall>aw \<in> set (nearest ex_three). distinct (map fst (ranking aw))" by code_simp
  have 3: "distinct (map fst [(1::nat, 1::real), (0, 2), (2, 4)])" by simp
  from vertex_lists_follow_ranking[OF ex_three_run] 1 2
  have "\<forall>c \<in> set (calls ex_three_result).
         ((\<exists>d. c = Set_dimension d) \<or> built_from ex_three (vertex_list c))
         \<and> distinct (vertex_list c)" by auto
  with 3 ex_three_run show ?thesis unfolding list_all_iff by blast
qed

text \<open>
  C8, as the claim has it, fails when a witness is nearer to landmark 1 than to landmark
  0: the run looks up and inserts the list \<open>[1, 0]\<close>.
\<close>

theorem canonical_identity_counterexample:
  "create_complex ex_three ex_empty 2 5 = Inr (True, ex_three_result)
   \<and> Find [1, 0] \<in> set (calls ex_three_result)
   \<and> Insert [1, 0] 0 \<in> set (calls ex_three_result)
   \<and> \<not> sorted_wrt (<) [1, 0::nat]"
proof -
  have "Find [1, 0] \<in> set (calls ex_three_result)" by code_simp
  moreover have "Insert [1, 0] 0 \<in> set (calls ex_three_result)" by code_simp
  moreover have "\<not> sorted_wrt (<) [1, 0::nat]" by simp
  ultimately show ?thesis using ex_three_run by blast
qed



text \<open>
  C10. \<open>front\<close> has no result exactly on the empty list, and \<open>create_complex\<close> fails
  on \<open>active_witnesses.front()\<close> exactly when its checks pass, the seeding loop ends and
  no witness was supplied.
\<close>

theorem front_of_empty_witness_list:
  "(front xs = None \<longleftrightarrow> xs = [])
   \<and> (create_complex wc sc max_alpha_square limit_dimension = Inl Front_of_empty_list
        \<longleftrightarrow> num_vertices sc = 0 \<and> 0 \<le> max_alpha_square \<and> 0 \<le> limit_dimension
            \<and> nbL wc < 2 ^ 32 \<and> nearest wc = [])"
  unfolding create_complex_def front_def Let_def
  by (auto split: list.splits prod.splits)

theorem front_of_empty_witness_list_witness:
  "create_complex \<lparr>nbL = 1, nearest = []\<rparr> ex_empty 0 5 = Inl Front_of_empty_list
   \<and> create_complex ex_one ex_empty 0 5 \<noteq> Inl Front_of_empty_list"
proof -
  have "num_vertices ex_empty = 0" by code_simp
  moreover have "nbL \<lparr>nbL = 1, nearest = []\<rparr> < 2 ^ 32" by simp
  moreover have "nearest ex_one \<noteq> []" by code_simp
  ultimately show ?thesis
    using front_of_empty_witness_list[of "[]::ActiveWitness list" "\<lparr>nbL = 1, nearest = []\<rparr>" ex_empty 0 5]
      front_of_empty_witness_list[of "[]::ActiveWitness list" ex_one ex_empty 0 5]
    by simp
qed

end
